theory Spec2Isabelle
  imports Main
begin

section \<open>JavaScript values, strings and numbers\<close>

text \<open>
  The library is JavaScript. A string is modelled as a list of \<^typ>\<open>char\<close>, one
  \<^typ>\<open>char\<close> for each UTF-16 code unit below 256. A property of a \<open>Token\<close> holds
  \<open>undefined\<close>, a string or a number.

  A number is an IEEE double in the source. Token ids are small integers, so the model
  keeps the integer-valued doubles \<open>Fin n\<close> and \<open>NaN\<close>. The doubles hold every integer
  up to \<open>2^53\<close> in magnitude; within this range the sum \<open>num_add\<close> and the numeral
  \<open>ToString_num\<close> below are those of the program, beyond it the program rounds
  (\<open>2^53 + 1\<close> is \<open>2^53\<close>) and writes other numerals. The ids that count the tokens of a
  sentence from 1 stay in the range, an array having fewer than \<open>2^32\<close> elements; the
  statements about other ids bound them by \<open>2^53\<close>.
\<close>

datatype jsnum = NaN | Fin int

datatype jsval = Undefined | Str string | Num jsnum

text \<open>
  \<open>TypeError\<close> is what the JavaScript runtime throws on a property read of
  \<open>undefined\<close>. The three \<open>...Error\<close> kinds are the ones the specification names.
  \<open>Unmodelled\<close> is no behaviour of the program: it marks an input on which a string
  is converted to a number by a numeric syntax this embedding does not evaluate (see
  \<open>Number_str\<close>).
\<close>

datatype error =
  TypeError | MalformedLineError | MalformedGroupError | NotFoundError | Unmodelled

abbreviation TAB :: char where "TAB \<equiv> CHR 0x09"
abbreviation NL :: char where "NL \<equiv> CHR 0x0A"
abbreviation CR :: char where "CR \<equiv> CHR 0x0D"

text \<open>\<open>a === b\<close> on the values above: \<open>NaN\<close> is not equal to itself.\<close>

definition strict_eq :: "jsval \<Rightarrow> jsval \<Rightarrow> bool" where
  "strict_eq a b = (a = b \<and> a \<noteq> Num NaN)"

subsection \<open>Decimal numerals\<close>

definition is_digit :: "char \<Rightarrow> bool" where
  "is_digit c = ((48::int) \<le> of_char c \<and> of_char c \<le> (57::int))"

definition digit_val :: "char \<Rightarrow> int" where
  "digit_val c = of_char c - 48"

definition digit_char :: "int \<Rightarrow> char" where
  "digit_char d = char_of (48 + d)"

definition int_of_digits :: "string \<Rightarrow> int" where
  "int_of_digits s = foldl (\<lambda>a c. 10 * a + digit_val c) 0 s"

text \<open>The decimal numeral of a number that is not negative.\<close>

function dec_digits :: "int \<Rightarrow> string" where
  "dec_digits n =
     (if n < 10 then [digit_char n] else dec_digits (n div 10) @ [digit_char (n mod 10)])"
  by pat_completeness auto
termination
  by (relation "measure nat") auto

declare dec_digits.simps [simp del]

text \<open>\<open>String(v)\<close>; for a number, the decimal numeral of an integer up to \<open>2^53\<close>.\<close>

fun ToString_num :: "jsnum \<Rightarrow> string" where
  "ToString_num NaN = ''NaN''"
| "ToString_num (Fin i) =
     (if i < 0 then CHR ''-'' # dec_digits (- i) else dec_digits i)"

fun ToString :: "jsval \<Rightarrow> string" where
  "ToString Undefined = ''undefined''"
| "ToString (Str s) = s"
| "ToString (Num n) = ToString_num n"

text \<open>
  \<open>Number(s)\<close> for a string \<open>s\<close>. The source relies on the runtime's conversion, which
  reads white space, signs, fractions, exponents, radix prefixes and \<open>Infinity\<close> and
  rounds to a double. The model evaluates it where the result is an exact integer or
  certainly \<open>NaN\<close>:
  \<^item> the empty string is \<open>0\<close>;
  \<^item> a string of at most 15 decimal digits is the integer it denotes (below \<open>2^53\<close>);
  \<^item> a string holding a printable ASCII character that no numeric literal contains
    is \<open>NaN\<close>;
  \<^item> any other string gives \<open>None\<close>, and the operation that needed the number is
    \<open>Unmodelled\<close>.
\<close>

definition never_numeric :: "char \<Rightarrow> bool" where
  "never_numeric c =
     ((33::int) \<le> of_char c \<and> of_char c \<le> (126::int) \<and>
      c \<notin> set ''0123456789+-.eEInfityxXabcdefABCDEFoObB'')"

definition Number_str :: "string \<Rightarrow> jsnum option" where
  "Number_str s =
     (if s = [] then Some (Fin 0)
      else if list_all is_digit s then
        (if length s \<le> 15 then Some (Fin (int_of_digits s)) else None)
      else if list_ex never_numeric s then Some NaN
      else None)"

text \<open>\<open>Number(v)\<close> for any value, and the truth value of a number in a condition.\<close>

fun ToNumber :: "jsval \<Rightarrow> jsnum option" where
  "ToNumber Undefined = Some NaN"
| "ToNumber (Str s) = Number_str s"
| "ToNumber (Num n) = Some n"

fun truthy_num :: "jsnum \<Rightarrow> bool" where
  "truthy_num NaN = False"
| "truthy_num (Fin i) = (i \<noteq> 0)"

text \<open>\<open>n + d\<close> for an integer \<open>d\<close>, exact while the sum is at most \<open>2^53\<close> in magnitude.\<close>

fun num_add :: "jsnum \<Rightarrow> int \<Rightarrow> jsnum" where
  "num_add NaN d = NaN"
| "num_add (Fin i) d = Fin (i + d)"

subsection \<open>String operations of the runtime\<close>

text \<open>\<open>s.split(c)\<close> for a one-character separator: never empty, \<open>"".split(c)\<close> is \<open>[""]\<close>.\<close>

fun split_on :: "char \<Rightarrow> string \<Rightarrow> string list" where
  "split_on c [] = [[]]"
| "split_on c (x # xs) =
     (if x = c then [] # split_on c xs
      else (case split_on c xs of
              [] \<Rightarrow> [[x]]
            | h # t \<Rightarrow> (x # h) # t))"

text \<open>\<open>a.join(c)\<close>.\<close>

fun join_with :: "char \<Rightarrow> string list \<Rightarrow> string" where
  "join_with c [] = []"
| "join_with c [l] = l"
| "join_with c (l # r # ls) = l @ c # join_with c (r # ls)"

definition startsWith :: "string \<Rightarrow> string \<Rightarrow> bool" where
  "startsWith s p = (take (length p) s = p)"

text \<open>
  \<open>s.slice(0, index)\<close> and \<open>s.slice(index)\<close> for an integer \<open>index\<close>: a negative index
  counts from the end, and both ends are clamped to the string.
\<close>

definition slice_pos :: "string \<Rightarrow> int \<Rightarrow> nat" where
  "slice_pos s i =
     (if i < 0 then nat (max (int (length s) + i) 0) else nat (min i (int (length s))))"

definition slice_to :: "string \<Rightarrow> int \<Rightarrow> string" where
  "slice_to s index = take (slice_pos s index) s"

definition slice_from :: "string \<Rightarrow> int \<Rightarrow> string" where
  "slice_from s index = drop (slice_pos s index) s"

section \<open>Token\<close>

text \<open>
  The ten properties of \<open>Token.prototype\<close> (\<open>id\<close> and \<open>lemma\<close> carry a suffix, the
  plain names being taken in Isabelle). A \<open>new Token()\<close> reads the prototype's values.
\<close>

record Token =
  id_t :: jsval
  form :: jsval
  lemma_t :: jsval
  upostag :: jsval
  xpostag :: jsval
  feats :: jsval
  head :: jsval
  deprel :: jsval
  deps :: jsval
  misc :: jsval

definition new_Token :: Token where
  "new_Token =
     \<lparr>id_t = Undefined, form = Str [], lemma_t = Undefined, upostag = Undefined,
      xpostag = Undefined, feats = Undefined, head = Undefined, deprel = Undefined,
      deps = Undefined, misc = Undefined\<rparr>"

text \<open>
  The getter of \<open>Token.serial\<close>. Each \<open>x_output\<close> starts as the placeholder and is
  replaced by \<open>String(this.x)\<close> when \<open>this.x\<close> is neither \<open>undefined\<close> nor \<open>""\<close>;
  for \<open>form_output\<close> the source tests \<open>this.id\<close>, not \<open>this.form\<close>.
\<close>

definition is_set :: "jsval \<Rightarrow> bool" where
  "is_set v = (v \<noteq> Undefined \<and> v \<noteq> Str [])"

definition field_output :: "jsval \<Rightarrow> string" where
  "field_output v = (if is_set v then ToString v else ''_'')"

definition Token_serial :: "Token \<Rightarrow> string" where
  "Token_serial t =
     (let id_output = field_output (id_t t);
          form_output = (if is_set (id_t t) then ToString (form t) else ''_'');
          lemma_output = field_output (lemma_t t);
          upostag_output = field_output (upostag t);
          xpostag_output = field_output (xpostag t);
          feats_output = field_output (feats t);
          head_output = field_output (head t);
          deprel_output = field_output (deprel t);
          deps_output = field_output (deps t);
          misc_output = field_output (misc t)
      in id_output @ TAB # form_output @ TAB # lemma_output @ TAB # upostag_output @
         TAB # xpostag_output @ TAB # feats_output @ TAB # head_output @ TAB #
         deprel_output @ TAB # deps_output @ TAB # misc_output)"

text \<open>
  The setter of \<open>Token.serial\<close>. \<open>fields[k]\<close> is \<open>undefined\<close> beyond the end of the
  array. The id is \<open>Number(fields[0])\<close> when that number is truthy and the string
  \<open>fields[0]\<close> otherwise; the nine assignments after it do not depend on the id.

  The setter has no \<open>throw\<close>, so it returns on every string. \<open>Assigned t\<close> is the token
  after the assignment. \<open>Assigned_id_unevaluated t\<close> says that the setter has returned as
  well, on a first field whose number the model does not evaluate (see \<open>Number_str\<close>):
  the nine fields after the id are those of \<open>t\<close>, the id is the value that the runtime
  computes, and \<open>id_t t\<close> is still the id from before the assignment.
\<close>

definition field :: "string list \<Rightarrow> nat \<Rightarrow> jsval" where
  "field flds k = (if k < length flds then Str (flds ! k) else Undefined)"

datatype assigned = Assigned Token | Assigned_id_unevaluated Token

definition assign_after_id :: "string list \<Rightarrow> Token \<Rightarrow> Token" where
  "assign_after_id flds t =
     t\<lparr>form := field flds 1,
       lemma_t := field flds 2,
       upostag := field flds 3,
       xpostag := field flds 4,
       feats := field flds 5,
       head := field flds 6,
       deprel := field flds 7,
       deps := field flds 8,
       misc := field flds 9\<rparr>"

definition Token_serial_assign :: "Token \<Rightarrow> string \<Rightarrow> assigned" where
  "Token_serial_assign t arg =
     (let flds = split_on TAB arg in
      case Number_str (hd flds) of
        None \<Rightarrow> Assigned_id_unevaluated (assign_after_id flds t)
      | Some n \<Rightarrow>
          Assigned
            (assign_after_id flds
               (t\<lparr>id_t := (if truthy_num n then Num n else Str (hd flds))\<rparr>)))"

text \<open>
  The setter as its callers use it: they go on with the token and its id, so a
  token whose id is not evaluated is \<open>Unmodelled\<close> for them.
\<close>

definition Token_serial_set :: "Token \<Rightarrow> string \<Rightarrow> error + Token" where
  "Token_serial_set t arg =
     (case Token_serial_assign t arg of
        Assigned t' \<Rightarrow> Inr t'
      | Assigned_id_unevaluated t' \<Rightarrow> Inl Unmodelled)"

text \<open>Parsing one line: \<open>var t = new Token(); t.serial = line\<close>.\<close>

definition Token_parse :: "string \<Rightarrow> error + Token" where
  "Token_parse line = Token_serial_set new_Token line"

text \<open>A loop body that may throw, run over a list from left to right.\<close>

fun map_result :: "('a \<Rightarrow> error + 'b) \<Rightarrow> 'a list \<Rightarrow> error + 'b list" where
  "map_result f [] = Inr []"
| "map_result f (x # xs) =
     (case f x of
        Inl e \<Rightarrow> Inl e
      | Inr y \<Rightarrow> (case map_result f xs of Inl e \<Rightarrow> Inl e | Inr ys \<Rightarrow> Inr (y # ys)))"

section \<open>MultiwordToken\<close>

text \<open>
  Modelled from the spec: \<open>MultiwordToken.js\<close> (and \<open>TokenAggregate.js\<close>) are required
  by \<open>Sentence.js\<close> and are not among the sources. What \<open>Sentence.js\<close> itself uses of a
  \<open>MultiwordToken\<close> is its \<open>form\<close>, its \<open>tokens\<close> (an array, empty when new), its \<open>id\<close>
  and its \<open>serial\<close>.
\<close>

record MultiwordToken =
  form_m :: jsval
  tokens_m :: "Token list"

definition new_MultiwordToken :: MultiwordToken where
  "new_MultiwordToken = \<lparr>form_m = Str [], tokens_m = []\<rparr>"

text \<open>
  Modelled from the spec: the id of a group is the first field of its range line,
  \<open>first-last\<close>, read live from \<open>tokens[0].id\<close> and the last child's id (sections 4.2
  and 4.6; \<open>collapse\<close> notes that the id of a mwt is a string). Reading \<open>tokens[0].id\<close> of
  a group without children is a property read of \<open>undefined\<close>.
\<close>

definition MultiwordToken_id :: "MultiwordToken \<Rightarrow> error + jsval" where
  "MultiwordToken_id m =
     (case tokens_m m of
        [] \<Rightarrow> Inl TypeError
      | c # cs \<Rightarrow>
          Inr (Str (ToString (id_t c) @ CHR ''-'' # ToString (id_t (last (c # cs))))))"

text \<open>
  Modelled from the spec: serialising a group emits the range line (\<open>first-last\<close>, the
  form, placeholders for the remaining 8 fields) followed by each child's own line, in
  child order (section 4.2).
\<close>

definition MultiwordToken_serial :: "MultiwordToken \<Rightarrow> error + string" where
  "MultiwordToken_serial m =
     (case MultiwordToken_id m of
        Inl e \<Rightarrow> Inl e
      | Inr range_id \<Rightarrow>
          Inr (join_with NL
                 ((ToString range_id @ TAB # field_output (form_m m) @
                   concat (replicate 8 [TAB, CHR ''_''])) #
                  map Token_serial (tokens_m m))))"

text \<open>
  The span of a range id \<open>first-last\<close>, as \<open>Sentence.serial\<close> computes it: the numbers
  before and after the first dash, and the loop
  \<open>while (first <= last) span.push(Number(first++))\<close>, which does not run when either
  number is \<open>NaN\<close>.
\<close>

function span_loop :: "int \<Rightarrow> int \<Rightarrow> int list" where
  "span_loop first_n last_n =
     (if first_n \<le> last_n then first_n # span_loop (first_n + 1) last_n else [])"
  by pat_completeness auto
termination
  by (relation "measure (\<lambda>(first_n, last_n). nat (last_n + 1 - first_n))") auto

declare span_loop.simps [simp del]

definition range_span :: "string \<Rightarrow> error + int list" where
  "range_span mwtId =
     (let dashIndex = length (takeWhile (\<lambda>c. c \<noteq> CHR ''-'') mwtId) in
      case Number_str (take dashIndex mwtId) of
        None \<Rightarrow> Inl Unmodelled
      | Some first_n \<Rightarrow>
          (case Number_str (drop (dashIndex + 1) mwtId) of
             None \<Rightarrow> Inl Unmodelled
           | Some last_n \<Rightarrow>
               Inr (case first_n of
                      NaN \<Rightarrow> []
                    | Fin a \<Rightarrow> (case last_n of NaN \<Rightarrow> [] | Fin b \<Rightarrow> span_loop a b))))"

text \<open>
  Modelled from the spec: parsing a block (section 4.2). The first line is the range
  line, the lines after it are the children, each read by \<open>Token.serial\<close>. The form
  is the second field of the range line. The parse fails with \<open>MalformedGroupError\<close>
  when the number of child lines is not that of the declared span, when a child's id
  is outside the span, or when the children are not in ascending order.
\<close>

definition child_in_span :: "int list \<Rightarrow> Token \<Rightarrow> bool" where
  "child_in_span span c = (case id_t c of Num (Fin i) \<Rightarrow> i \<in> set span | _ \<Rightarrow> False)"

fun ascending_ids :: "Token list \<Rightarrow> bool" where
  "ascending_ids (a # b # cs) =
     ((case id_t a of
         Num (Fin i) \<Rightarrow> (case id_t b of Num (Fin j) \<Rightarrow> i < j | _ \<Rightarrow> False)
       | _ \<Rightarrow> False) \<and> ascending_ids (b # cs))"
| "ascending_ids cs = True"

definition MultiwordToken_serial_set :: "MultiwordToken \<Rightarrow> string \<Rightarrow> error + MultiwordToken" where
  "MultiwordToken_serial_set m arg =
     (let lines = split_on NL arg;
          flds = split_on TAB (hd lines)
      in case range_span (hd flds) of
           Inl e \<Rightarrow> Inl e
         | Inr span \<Rightarrow>
             (case map_result Token_parse (tl lines) of
                Inl e \<Rightarrow> Inl e
              | Inr children \<Rightarrow>
                  if length children = length span \<and> list_all (child_in_span span) children \<and>
                     ascending_ids children
                  then Inr (m\<lparr>form_m := field flds 1, tokens_m := children\<rparr>)
                  else Inl MalformedGroupError))"

section \<open>Sentence\<close>

text \<open>
  An entry of \<open>tokens\<close> is a \<open>Token\<close> or a \<open>MultiwordToken\<close>; the source tells them apart
  by \<open>instanceof MultiwordToken\<close>.
\<close>

datatype entry = Tok Token | Mwt MultiwordToken

text \<open>
  \<open>metadata\<close> is a plain object whose property values are strings. The model keeps its
  own properties as a list of pairs in the order in which \<open>Object.entries\<close> lists them:
  the keys that are array indices (canonical numerals up to \<open>2^32 - 2\<close>) first, in
  ascending numeric order, then the other keys in the order of their creation.
\<close>

record Sentence =
  metadata :: "(string \<times> string) list"
  tokens :: "entry list"

definition new_Sentence :: Sentence where
  "new_Sentence = \<lparr>metadata = [], tokens = []\<rparr>"

definition is_array_index :: "string \<Rightarrow> bool" where
  "is_array_index k =
     (k \<noteq> [] \<and> list_all is_digit k \<and> (k = ''0'' \<or> hd k \<noteq> CHR ''0'') \<and>
      int_of_digits k \<le> 4294967294)"

text \<open>
  \<open>obj[k] = v\<close> on such an object. Assigning to an existing own property keeps its
  place. The key \<open>__proto__\<close> reaches the setter inherited from \<open>Object.prototype\<close>, which
  ignores a string, so no own property is created.
\<close>

fun insert_index :: "string \<Rightarrow> string \<Rightarrow> (string \<times> string) list \<Rightarrow> (string \<times> string) list" where
  "insert_index k v [] = [(k, v)]"
| "insert_index k v ((k', v') # ps) =
     (if is_array_index k' \<and> int_of_digits k' < int_of_digits k
      then (k', v') # insert_index k v ps
      else (k, v) # (k', v') # ps)"

definition obj_set :: "(string \<times> string) list \<Rightarrow> string \<Rightarrow> string \<Rightarrow> (string \<times> string) list" where
  "obj_set obj k v =
     (if k = ''__proto__'' then obj
      else if k \<in> set (map fst obj) then map (\<lambda>(k', v'). if k' = k then (k', v) else (k', v')) obj
      else if is_array_index k then insert_index k v obj
      else obj @ [(k, v)])"

text \<open>
  \<open>new RegExp("# (.*) = (.*)", "g").exec(line)\<close>: the leftmost position at which the
  pattern matches. \<open>.\<close> matches any character but a line terminator, and both groups
  are greedy, so at a position holding \<open>"# "\<close> the match lies in the run of characters
  up to the next line terminator, the first group ends at the last \<open>" = "\<close> of that run
  and the second group is the rest of the run. The result is the pair of the groups.
\<close>

fun last_sep :: "string \<Rightarrow> (string \<times> string) option" where
  "last_sep [] = None"
| "last_sep (c # cs) =
     (case last_sep cs of
        Some (k, v) \<Rightarrow> Some (c # k, v)
      | None \<Rightarrow> (if take 3 (c # cs) = '' = '' then Some ([], drop 3 (c # cs)) else None))"

definition line_terminator :: "char \<Rightarrow> bool" where
  "line_terminator c = (c = NL \<or> c = CR)"

fun metadataRegex_exec :: "string \<Rightarrow> (string \<times> string) option" where
  "metadataRegex_exec [] = None"
| "metadataRegex_exec (c # cs) =
     (if c = CHR ''#'' \<and> take 1 cs = '' '' then
        (case last_sep (takeWhile (\<lambda>x. \<not> line_terminator x) (drop 1 cs)) of
           Some kv \<Rightarrow> Some kv
         | None \<Rightarrow> metadataRegex_exec cs)
      else metadataRegex_exec cs)"

text \<open>The getter of \<open>Sentence.serial\<close>.\<close>

fun entry_serial :: "entry \<Rightarrow> error + string" where
  "entry_serial (Tok t) = Inr (Token_serial t)"
| "entry_serial (Mwt m) = MultiwordToken_serial m"

definition metadata_line :: "string \<times> string \<Rightarrow> string" where
  "metadata_line kv = ''# '' @ fst kv @ '' = '' @ snd kv"

definition Sentence_serial :: "Sentence \<Rightarrow> error + string" where
  "Sentence_serial s =
     (case map_result entry_serial (tokens s) of
        Inl e \<Rightarrow> Inl e
      | Inr serials \<Rightarrow> Inr (join_with NL (map metadata_line (metadata s) @ serials @ [[]])))"

text \<open>The setter of \<open>Sentence.serial\<close>: the first loop over the lines fills \<open>metadata\<close>.\<close>

fun metadata_pass :: "string list \<Rightarrow> (string \<times> string) list \<Rightarrow> (string \<times> string) list" where
  "metadata_pass [] md = md"
| "metadata_pass (l # ls) md =
     metadata_pass ls
       (if startsWith l ''#'' then
          (case metadataRegex_exec l of
             Some (metadataKey, metadataValue) \<Rightarrow> obj_set md metadataKey metadataValue
           | None \<Rightarrow> md)
        else md)"

text \<open>
  The second loop fills \<open>tokens\<close>. Its state is \<open>mwtSubIds\<close> and \<open>this.tokens\<close>; \<open>lines\<close> is
  the whole input, which the inner loop over \<open>j\<close> searches for the lines whose first
  field is a member of the span. The group is parsed from the range line and those
  lines, and \<open>this.tokens.concat(setMwt.tokens)\<close> appends its children.
  \<open>mwtSubIds.indexOf(n) === -1\<close> holds for every \<open>NaN\<close>.
\<close>

definition collect_subtokens :: "string list \<Rightarrow> string list \<Rightarrow> string" where
  "collect_subtokens lines span =
     concat (map (\<lambda>line_j.
        concat (map (\<lambda>span_x.
           if span_x = hd (split_on TAB line_j) then line_j @ [NL] else []) span)) lines)"

definition not_in_mwtSubIds :: "int list \<Rightarrow> jsnum \<Rightarrow> bool" where
  "not_in_mwtSubIds mwtSubIds n = (case n of NaN \<Rightarrow> True | Fin i \<Rightarrow> i \<notin> set mwtSubIds)"

fun token_pass :: "string list \<Rightarrow> string list \<Rightarrow> int list \<Rightarrow> entry list \<Rightarrow> error + entry list" where
  "token_pass lines [] mwtSubIds toks = Inr toks"
| "token_pass lines (line # rest) mwtSubIds toks =
     (let flds = split_on TAB line;
          currentLineId = hd flds
      in if \<not> startsWith line ''#'' \<and> line \<noteq> [] then
           (if CHR ''-'' \<in> set currentLineId then
              (case range_span currentLineId of
                 Inl e \<Rightarrow> Inl e
               | Inr span \<Rightarrow>
                   (let mwtString =
                          line @ [NL] @
                          collect_subtokens lines (map (\<lambda>i. ToString (Num (Fin i))) span)
                    in case MultiwordToken_serial_set new_MultiwordToken (butlast mwtString) of
                         Inl e \<Rightarrow> Inl e
                       | Inr setMwt \<Rightarrow>
                           token_pass lines rest span (toks @ map Tok (tokens_m setMwt))))
            else
              (case Number_str currentLineId of
                 None \<Rightarrow> Inl Unmodelled
               | Some n \<Rightarrow>
                   if not_in_mwtSubIds mwtSubIds n then
                     (case Token_parse line of
                        Inl e \<Rightarrow> Inl e
                      | Inr setToken \<Rightarrow> token_pass lines rest mwtSubIds (toks @ [Tok setToken]))
                   else token_pass lines rest mwtSubIds toks))
         else token_pass lines rest mwtSubIds toks)"

definition Sentence_serial_set :: "Sentence \<Rightarrow> string \<Rightarrow> error + Sentence" where
  "Sentence_serial_set s arg =
     (let s0 = s\<lparr>metadata := [], tokens := []\<rparr>;
          lines = split_on NL arg;
          s1 = s0\<lparr>metadata := metadata_pass lines (metadata s0)\<rparr>
      in case token_pass lines lines [] (tokens s1) of
           Inl e \<Rightarrow> Inl e
         | Inr toks \<Rightarrow> Inr (s1\<lparr>tokens := toks\<rparr>))"

text \<open>Parsing a text: \<open>var s = new Sentence(); s.serial = text\<close>.\<close>

definition Sentence_parse :: "string \<Rightarrow> error + Sentence" where
  "Sentence_parse text = Sentence_serial_set new_Sentence text"

subsection \<open>expand and collapse\<close>

text \<open>
  \<open>this.tokens[i].id\<close> of an entry: the property of a \<open>Token\<close>, the getter of a
  \<open>MultiwordToken\<close>.
\<close>

fun entry_id :: "entry \<Rightarrow> error + jsval" where
  "entry_id (Tok t) = Inr (id_t t)"
| "entry_id (Mwt m) = MultiwordToken_id m"

text \<open>
  The renumbering of the entries after the edited one. \<open>t.id++\<close> stores
  \<open>Number(t.id) + 1\<close>, and \<open>collapse\<close> stores \<open>Number(t.id - (mwt_length - 1))\<close>; both
  convert the old id to a number and add an integer \<open>d\<close> to it. A \<open>MultiwordToken\<close> has
  the ids of its children renumbered.
\<close>

definition renumber_token :: "int \<Rightarrow> Token \<Rightarrow> error + Token" where
  "renumber_token d t =
     (case ToNumber (id_t t) of
        None \<Rightarrow> Inl Unmodelled
      | Some n \<Rightarrow> Inr (t\<lparr>id_t := Num (num_add n d)\<rparr>))"

fun renumber_entry :: "int \<Rightarrow> entry \<Rightarrow> error + entry" where
  "renumber_entry d (Tok t) =
     (case renumber_token d t of Inl e \<Rightarrow> Inl e | Inr t' \<Rightarrow> Inr (Tok t'))"
| "renumber_entry d (Mwt m) =
     (case map_result (renumber_token d) (tokens_m m) of
        Inl e \<Rightarrow> Inl e
      | Inr children \<Rightarrow> Inr (Mwt (m\<lparr>tokens_m := children\<rparr>)))"

text \<open>
  The loop of \<open>expand\<close> over \<open>this.tokens\<close>, with its flag \<open>found\<close>. The first entry whose
  id is \<open>token_id\<close> and that is not a \<open>MultiwordToken\<close> is replaced by \<open>expandToken\<close>;
  \<open>form.slice\<close> throws unless the form is a string. Nothing has been changed when the
  loop throws a \<open>TypeError\<close>.
\<close>

fun expand_loop :: "bool \<Rightarrow> jsval \<Rightarrow> int \<Rightarrow> entry list \<Rightarrow> error + entry list" where
  "expand_loop found token_id index [] = Inr []"
| "expand_loop found token_id index (e # es) =
     (if found then
        (case renumber_entry 1 e of
           Inl err \<Rightarrow> Inl err
         | Inr e' \<Rightarrow>
             (case expand_loop True token_id index es of
                Inl err \<Rightarrow> Inl err
              | Inr es' \<Rightarrow> Inr (e' # es')))
      else
        (case entry_id e of
           Inl err \<Rightarrow> Inl err
         | Inr i \<Rightarrow>
             (case e of
                Tok t \<Rightarrow>
                  if strict_eq i token_id then
                    (case form t of
                       Str f \<Rightarrow>
                         (case ToNumber (id_t t) of
                            None \<Rightarrow> Inl Unmodelled
                          | Some n \<Rightarrow>
                              (let initial = new_Token\<lparr>form := Str (slice_to f index),
                                                        id_t := id_t t\<rparr>;
                                   second = new_Token\<lparr>form := Str (slice_from f index),
                                                       id_t := Num (num_add n 1)\<rparr>;
                                   expandToken = new_MultiwordToken\<lparr>form_m := form t,
                                                   tokens_m := [initial, second]\<rparr>
                               in case expand_loop True token_id index es of
                                    Inl err \<Rightarrow> Inl err
                                  | Inr es' \<Rightarrow> Inr (Mwt expandToken # es')))
                     | _ \<Rightarrow> Inl TypeError)
                  else
                    (case expand_loop False token_id index es of
                       Inl err \<Rightarrow> Inl err
                     | Inr es' \<Rightarrow> Inr (e # es'))
              | Mwt m \<Rightarrow>
                  (case expand_loop False token_id index es of
                     Inl err \<Rightarrow> Inl err
                   | Inr es' \<Rightarrow> Inr (e # es')))))"

definition expand :: "Sentence \<Rightarrow> jsval \<Rightarrow> int \<Rightarrow> error + Sentence" where
  "expand s token_id index =
     (case expand_loop False token_id index (tokens s) of
        Inl err \<Rightarrow> Inl err
      | Inr toks \<Rightarrow> Inr (s\<lparr>tokens := toks\<rparr>))"

text \<open>
  The loop of \<open>collapse\<close>. \<open>found\<close> and \<open>mwt_length\<close> are set together, so the model keeps
  them as one optional length. An entry whose id is \<open>token_id\<close> and that is not a
  \<open>MultiwordToken\<close> is passed over, and the search goes on.
\<close>

fun collapse_loop :: "nat option \<Rightarrow> jsval \<Rightarrow> entry list \<Rightarrow> error + entry list" where
  "collapse_loop mwt_length token_id [] = Inr []"
| "collapse_loop (Some len) token_id (e # es) =
     (case renumber_entry (- (int len - 1)) e of
        Inl err \<Rightarrow> Inl err
      | Inr e' \<Rightarrow>
          (case collapse_loop (Some len) token_id es of
             Inl err \<Rightarrow> Inl err
           | Inr es' \<Rightarrow> Inr (e' # es')))"
| "collapse_loop None token_id (e # es) =
     (case entry_id e of
        Inl err \<Rightarrow> Inl err
      | Inr i \<Rightarrow>
          (case e of
             Mwt m \<Rightarrow>
               if strict_eq i token_id then
                 (case tokens_m m of
                    [] \<Rightarrow> Inl TypeError
                  | c # cs \<Rightarrow>
                      (case ToNumber (id_t c) of
                         None \<Rightarrow> Inl Unmodelled
                       | Some n \<Rightarrow>
                           (let collapsed = new_Token\<lparr>id_t := Num n, form := form_m m\<rparr>
                            in case collapse_loop (Some (length (tokens_m m))) token_id es of
                                 Inl err \<Rightarrow> Inl err
                               | Inr es' \<Rightarrow> Inr (Tok collapsed # es'))))
               else
                 (case collapse_loop None token_id es of
                    Inl err \<Rightarrow> Inl err
                  | Inr es' \<Rightarrow> Inr (e # es'))
           | Tok t \<Rightarrow>
               (case collapse_loop None token_id es of
                  Inl err \<Rightarrow> Inl err
                | Inr es' \<Rightarrow> Inr (e # es'))))"

definition collapse :: "Sentence \<Rightarrow> jsval \<Rightarrow> error + Sentence" where
  "collapse s token_id =
     (case collapse_loop None token_id (tokens s) of
        Inl err \<Rightarrow> Inl err
      | Inr toks \<Rightarrow> Inr (s\<lparr>tokens := toks\<rparr>))"

section \<open>Notions used in the statements\<close>

text \<open>The ten fields of a token in the order of its line.\<close>

definition Token_fields :: "Token \<Rightarrow> jsval list" where
  "Token_fields t =
     [id_t t, form t, lemma_t t, upostag t, xpostag t, feats t, head t, deprel t, deps t, misc t]"

text \<open>
  The block of the specification's scenario: the range line \<open>2-3 haven't\<close> followed by
  the lines of the tokens 2 and 3, each line ended by a line feed.
\<close>

definition scenario_havent :: string where
  "scenario_havent =
     join_with NL
       [join_with TAB [''2-3'', ''haven't'', ''_'', ''_'', ''_'', ''_'', ''_'', ''_'', ''_'', ''_''],
        join_with TAB [''2'', ''have'', ''have'', ''VERB'', ''VBP'', ''_'', ''0'', ''root'', ''_'', ''_''],
        join_with TAB [''3'', ''not'', ''not'', ''PART'', ''RB'', ''_'', ''2'', ''neg'', ''_'', ''_''],
        []]"

text \<open>
  The ids a sentence holds, in display order: the id of each standalone token and the
  ids of the children of each group.
\<close>

fun entry_ids :: "entry \<Rightarrow> jsval list" where
  "entry_ids (Tok t) = [id_t t]"
| "entry_ids (Mwt m) = map id_t (tokens_m m)"

definition sentence_ids :: "Sentence \<Rightarrow> jsval list" where
  "sentence_ids s = concat (map entry_ids (tokens s))"

text \<open>The ids \<open>1, 2, ..., n\<close> as numbers, and the ids that are integers at all.\<close>

definition ids_upto :: "int \<Rightarrow> jsval list" where
  "ids_upto n = map (\<lambda>i. Num (Fin i)) [1..n]"

fun int_id :: "jsval \<Rightarrow> bool" where
  "int_id (Num (Fin i)) = True"
| "int_id v = False"

fun positive_id :: "jsval \<Rightarrow> bool" where
  "positive_id (Num (Fin i)) = (0 < i)"
| "positive_id v = False"

definition int_ids :: "entry \<Rightarrow> bool" where
  "int_ids e = list_all int_id (entry_ids e)"

text \<open>
  An id as the data model has it: a positive integer, below \<open>2^53\<close>. Up to \<open>2^53\<close> the
  doubles hold every integer, so that for such ids \<open>id + 1\<close>, \<open>id - (mwt_length - 1)\<close>
  and \<open>String(id)\<close> in the program are the integer sum, the integer difference and
  the decimal numeral of the model. (An array has fewer than \<open>2^32\<close> elements.)
\<close>

fun safe_id :: "jsval \<Rightarrow> bool" where
  "safe_id (Num (Fin i)) = (0 < i \<and> i < 2 ^ 53)"
| "safe_id v = False"

definition safe_ids :: "entry \<Rightarrow> bool" where
  "safe_ids e = list_all safe_id (entry_ids e)"

text \<open>Adding \<open>d\<close> to the integer ids of an entry, every other field kept.\<close>

fun shift_id :: "int \<Rightarrow> jsval \<Rightarrow> jsval" where
  "shift_id d (Num (Fin i)) = Num (Fin (i + d))"
| "shift_id d v = v"

definition shift_token :: "int \<Rightarrow> Token \<Rightarrow> Token" where
  "shift_token d t = t\<lparr>id_t := shift_id d (id_t t)\<rparr>"

fun shift_entry :: "int \<Rightarrow> entry \<Rightarrow> entry" where
  "shift_entry d (Tok t) = Tok (shift_token d t)"
| "shift_entry d (Mwt m) = Mwt (m\<lparr>tokens_m := map (shift_token d) (tokens_m m)\<rparr>)"

text \<open>
  What the search of \<open>expand\<close> and of \<open>collapse\<close> passes over. A group must have a
  child for its id to be read. \<open>expand\<close> passes over every group and over the tokens
  with another id; \<open>collapse\<close> passes over every token and over the groups with
  another id.
\<close>

fun expand_skips :: "jsval \<Rightarrow> entry \<Rightarrow> bool" where
  "expand_skips token_id (Tok t) = (\<not> strict_eq (id_t t) token_id)"
| "expand_skips token_id (Mwt m) = (tokens_m m \<noteq> [])"

fun collapse_skips :: "jsval \<Rightarrow> entry \<Rightarrow> bool" where
  "collapse_skips token_id (Tok t) = True"
| "collapse_skips token_id (Mwt m) = (tokens_m m \<noteq> [] \<and> MultiwordToken_id m \<noteq> Inr token_id)"

text \<open>
  A sentence on which no edit throws: the form of every entry is a string and every
  group has a child.
\<close>

fun is_Str :: "jsval \<Rightarrow> bool" where
  "is_Str (Str s) = True"
| "is_Str v = False"

fun editable_entry :: "entry \<Rightarrow> bool" where
  "editable_entry (Tok t) = is_Str (form t)"
| "editable_entry (Mwt m) = (is_Str (form_m m) \<and> tokens_m m \<noteq> [])"

definition editable :: "Sentence \<Rightarrow> bool" where
  "editable s = list_all editable_entry (tokens s)"

text \<open>A sequence of edits, stopped by the first one that throws.\<close>

datatype edit = Expand jsval int | Collapse jsval

fun apply_edit :: "Sentence \<Rightarrow> edit \<Rightarrow> error + Sentence" where
  "apply_edit s (Expand token_id index) = expand s token_id index"
| "apply_edit s (Collapse token_id) = collapse s token_id"

fun apply_edits :: "Sentence \<Rightarrow> edit list \<Rightarrow> error + Sentence" where
  "apply_edits s [] = Inr s"
| "apply_edits s (ed # eds) =
     (case apply_edit s ed of Inl err \<Rightarrow> Inl err | Inr s' \<Rightarrow> apply_edits s' eds)"

text \<open>A standalone token with an id and a form, as the scenarios use them.\<close>

definition token_of :: "int \<Rightarrow> string \<Rightarrow> Token" where
  "token_of i f = new_Token\<lparr>id_t := Num (Fin i), form := Str f\<rparr>"

text \<open>The ids \<open>i, i + 1, ...\<close> in this order.\<close>

fun counts_from :: "int \<Rightarrow> jsval list \<Rightarrow> bool" where
  "counts_from i [] = True"
| "counts_from i (v # vs) = (v = Num (Fin i) \<and> counts_from (i + 1) vs)"

text \<open>The sentences of the scenarios.\<close>

definition ab_c :: Sentence where
  "ab_c = \<lparr>metadata = [], tokens = [Tok (token_of 1 ''ab''), Tok (token_of 2 ''c'')]\<rparr>"

definition a_b_c :: Sentence where
  "a_b_c =
     \<lparr>metadata = [],
      tokens = [Mwt \<lparr>form_m = Str ''ab'', tokens_m = [token_of 1 ''a'', token_of 2 ''b'']\<rparr>,
                Tok (token_of 3 ''c'')]\<rparr>"

definition c_ab :: Sentence where
  "c_ab = \<lparr>metadata = [], tokens = [Tok (token_of 2 ''ab''), Tok (token_of 1 ''c'')]\<rparr>"

text \<open>An entry that is a token, or a group with at least one child.\<close>

fun has_children :: "entry \<Rightarrow> bool" where
  "has_children (Tok t) = True"
| "has_children (Mwt m) = (tokens_m m \<noteq> [])"

text \<open>
  The comment lines that the metadata loop recognises, as pairs of key and value in
  the order of the lines.
\<close>

fun recognized :: "string list \<Rightarrow> (string \<times> string) list" where
  "recognized [] = []"
| "recognized (l # ls) =
     (if startsWith l ''#'' then
        (case metadataRegex_exec l of Some kv \<Rightarrow> [kv] | None \<Rightarrow> [])
      else []) @ recognized ls"

text \<open>
  An insertion-ordered mapping, as the specification describes \<open>metadata\<close>: a new key is
  put at the end, and a key that is present keeps its place and takes the new value.
\<close>

definition put_ordered :: "(string \<times> string) list \<Rightarrow> string \<times> string \<Rightarrow> (string \<times> string) list" where
  "put_ordered md kv =
     (if fst kv \<in> set (map fst md)
      then map (\<lambda>(k', v'). if k' = fst kv then (k', snd kv) else (k', v')) md
      else md @ [kv])"

definition encounter_order :: "(string \<times> string) list \<Rightarrow> (string \<times> string) list" where
  "encounter_order kvs = foldl put_ordered [] kvs"

text \<open>
  A key that a plain object lists in the order of its creation: no array index and
  not \<open>__proto__\<close>.
\<close>

definition ordinary_key :: "string \<Rightarrow> bool" where
  "ordinary_key k = (\<not> is_array_index k \<and> k \<noteq> ''__proto__'')"

text \<open>
  A sentence text written from its parts: one comment line \<open># key = value\<close> for each
  pair, then one line of tab-separated fields for each row, every line ended by a line
  feed.
\<close>

definition sentence_text :: "(string \<times> string) list \<Rightarrow> string list list \<Rightarrow> string" where
  "sentence_text kvs rows =
     concat (map (\<lambda>l. l @ [NL]) (map metadata_line kvs @ map (join_with TAB) rows))"

text \<open>
  The parts of a well-formed text. A comment's key and value hold no line terminator,
  the value is what follows the last \<open>" = "\<close> of the line (as it is whenever the value
  holds no \<open>=\<close>), and the keys are ordinary and differ from each other. A token line
  has 10 fields, none of them empty (an unset field is written \<open>_\<close>) and none of them
  holding a tab or a line feed, and its id is a decimal numeral of at most 15 digits
  without a leading zero.
\<close>

definition wf_comment :: "string \<times> string \<Rightarrow> bool" where
  "wf_comment kv =
     (list_all (\<lambda>c. \<not> line_terminator c) (fst kv @ snd kv) \<and>
      last_sep (fst kv @ '' = '' @ snd kv) = Some kv \<and>
      ordinary_key (fst kv))"

definition wf_comments :: "(string \<times> string) list \<Rightarrow> bool" where
  "wf_comments kvs = (list_all wf_comment kvs \<and> distinct (map fst kvs))"

definition canonical_id :: "string \<Rightarrow> bool" where
  "canonical_id s = (s \<noteq> [] \<and> list_all is_digit s \<and> hd s \<noteq> CHR ''0'' \<and> length s \<le> 15)"

definition wf_field :: "string \<Rightarrow> bool" where
  "wf_field f = (f \<noteq> [] \<and> list_all (\<lambda>c. c \<noteq> TAB \<and> c \<noteq> NL) f)"

definition wf_row :: "string list \<Rightarrow> bool" where
  "wf_row flds = (length flds = 10 \<and> list_all wf_field flds \<and> canonical_id (hd flds))"

text \<open>The token that a row of ten fields denotes.\<close>

definition token_of_row :: "string list \<Rightarrow> Token" where
  "token_of_row flds =
     \<lparr>id_t = Num (Fin (int_of_digits (flds ! 0))), form = Str (flds ! 1),
      lemma_t = Str (flds ! 2), upostag = Str (flds ! 3), xpostag = Str (flds ! 4),
      feats = Str (flds ! 5), head = Str (flds ! 6), deprel = Str (flds ! 7),
      deps = Str (flds ! 8), misc = Str (flds ! 9)\<rparr>"

fun is_Tok :: "entry \<Rightarrow> bool" where
  "is_Tok (Tok t) = True"
| "is_Tok (Mwt m) = False"

text \<open>Two comment lines whose keys are array indices, the larger one first.\<close>

definition comments_2_1 :: string where
  "comments_2_1 = sentence_text [(''2'', ''b''), (''1'', ''a'')] []"

text \<open>A text with three comment lines, two of them with the same key, and a token line.\<close>

definition comments_repeated :: string where
  "comments_repeated =
     sentence_text [(''sent_id'', ''2''), (''text'', ''I''), (''sent_id'', ''3'')]
       [[''1'', ''I'', ''I'', ''PRON'', ''PRP'', ''_'', ''2'', ''nsubj'', ''_'', ''_'']]"

text \<open>
  A text with two comment lines of the same key and one token line, and the text
  that its parse is serialised to.
\<close>

definition same_key_twice :: string where
  "same_key_twice =
     sentence_text [(''a'', ''1''), (''a'', ''2'')]
       [[''1'', ''x'', ''_'', ''_'', ''_'', ''_'', ''_'', ''_'', ''_'', ''_'']]"

definition same_key_once :: string where
  "same_key_once =
     sentence_text [(''a'', ''2'')]
       [[''1'', ''x'', ''_'', ''_'', ''_'', ''_'', ''_'', ''_'', ''_'', ''_'']]"

text \<open>
  The start of the example in the source's documentation, under two comment lines;
  the value of the second one holds \<open>=\<close>.
\<close>

definition sent_2 :: string where
  "sent_2 =
     sentence_text [(''sent_id'', ''2''), (''note'', ''1+1=2'')]
       [[''1'', ''I'', ''I'', ''PRON'', ''PRP'', ''Case=Nom|Number=Sing|Person=1'', ''2'',
         ''nsubj'', ''_'', ''_''],
        [''2'', ''have'', ''have'', ''VERB'', ''VBP'', ''Number=Sing|Person=1|Tense=Pres'', ''0'',
         ''root'', ''_'', ''_'']]"

section \<open>Token: parsing and serialising one line\<close>

lemma split_on_not_Nil: "split_on c s \<noteq> []"
  by (induction s) (auto split: list.splits)

lemma assign_after_id_fields:
  assumes "0 < k" and "k < 10"
  shows "Token_fields (assign_after_id flds t) ! k = field flds k"
proof -
  have k_cases: "k = 1 \<or> k = 2 \<or> k = 3 \<or> k = 4 \<or> k = 5 \<or> k = 6 \<or> k = 7 \<or> k = 8 \<or> k = 9"
    using assms by arith
  then show ?thesis
    by (elim disjE) (simp_all add: assign_after_id_def Token_fields_def)
qed

lemma Token_serial_assign_cases:
  "\<exists>t'. (Token_serial_assign t line = Assigned (assign_after_id (split_on TAB line) t') \<or>
         Token_serial_assign t line =
           Assigned_id_unevaluated (assign_after_id (split_on TAB line) t'))"
  by (cases "Number_str (hd (split_on TAB line))")
     (auto simp: Token_serial_assign_def Let_def)

lemma Token_serial_set_eq:
  "Token_serial_set t arg =
     (case Number_str (hd (split_on TAB arg)) of
        None \<Rightarrow> Inl Unmodelled
      | Some n \<Rightarrow>
          Inr (t\<lparr>id_t := (if truthy_num n then Num n else Str (hd (split_on TAB arg))),
                 form := field (split_on TAB arg) 1,
                 lemma_t := field (split_on TAB arg) 2,
                 upostag := field (split_on TAB arg) 3,
                 xpostag := field (split_on TAB arg) 4,
                 feats := field (split_on TAB arg) 5,
                 head := field (split_on TAB arg) 6,
                 deprel := field (split_on TAB arg) 7,
                 deps := field (split_on TAB arg) 8,
                 misc := field (split_on TAB arg) 9\<rparr>))"
  by (simp add: Token_serial_set_def Token_serial_assign_def assign_after_id_def Let_def
           split: option.splits)

text \<open>
  C7, as stated, fails: the line \<open>1<TAB>foo\<close> has two fields, and the setter returns a
  token with id 1 and form \<open>foo\<close> whose other eight fields are \<open>undefined\<close>. No
  \<open>MalformedLineError\<close> is raised.
\<close>

theorem Token_parse_two_fields_returns:
  "length (split_on TAB (join_with TAB [''1'', ''foo''])) = 2 \<and>
   Token_parse (join_with TAB [''1'', ''foo'']) =
     Inr \<lparr>id_t = Num (Fin 1), form = Str ''foo'', lemma_t = Undefined, upostag = Undefined,
          xpostag = Undefined, feats = Undefined, head = Undefined, deprel = Undefined,
          deps = Undefined, misc = Undefined\<rparr>"
  by code_simp

text \<open>
  C7, amended: a line with fewer than 10 tab-separated fields is parsed without any
  error. The setter returns a token that has \<open>undefined\<close> at every position the line
  lacks and the line's own strings at the positions after the id that the line has.
  This holds for every line: where the model does not evaluate the number of the first
  field, the token is returned all the same, with these fields.
\<close>

theorem Token_parse_short_line_unset:
  assumes "length (split_on TAB line) < 10"
  shows "\<exists>t. (Token_serial_assign new_Token line = Assigned t \<or>
              Token_serial_assign new_Token line = Assigned_id_unevaluated t) \<and>
           (\<forall>k<10. length (split_on TAB line) \<le> k \<longrightarrow> Token_fields t ! k = Undefined) \<and>
           (\<forall>k<10. 0 < k \<and> k < length (split_on TAB line) \<longrightarrow>
                Token_fields t ! k = Str (split_on TAB line ! k))"
proof -
  have len: "0 < length (split_on TAB line)"
    using split_on_not_Nil [of TAB line] by simp
  from Token_serial_assign_cases [of new_Token line] obtain t' where
    t: "Token_serial_assign new_Token line = Assigned (assign_after_id (split_on TAB line) t') \<or>
        Token_serial_assign new_Token line =
          Assigned_id_unevaluated (assign_after_id (split_on TAB line) t')"
    by blast
  let ?t = "assign_after_id (split_on TAB line) t'"
  have f: "Token_fields ?t ! k = field (split_on TAB line) k" if "0 < k" "k < 10" for k
    using assign_after_id_fields [OF that] .
  have a: "Token_fields ?t ! k = Undefined" if "k < 10" "length (split_on TAB line) \<le> k" for k
  proof -
    have "0 < k" using len that(2) by linarith
    then show ?thesis using f [of k] that by (simp add: field_def)
  qed
  have b: "Token_fields ?t ! k = Str (split_on TAB line ! k)"
    if "k < 10" "0 < k" "k < length (split_on TAB line)" for k
    using f [of k] that by (simp add: field_def)
  from t a b show ?thesis by blast
qed

text \<open>
  The amended C7 at the lines \<open>1<TAB>foo\<close>, whose id is the number 1, and
  \<open>8.1<TAB>foo\<close>, whose id the model does not evaluate: both yield a token with the
  form \<open>foo\<close> and eight unset fields.
\<close>

theorem Token_parse_short_line_unset_witness:
  "length (split_on TAB (join_with TAB [''1'', ''foo''])) < 10 \<and>
   (\<exists>t. (Token_serial_assign new_Token (join_with TAB [''1'', ''foo'']) = Assigned t \<or>
         Token_serial_assign new_Token (join_with TAB [''1'', ''foo'']) =
           Assigned_id_unevaluated t) \<and>
      (\<forall>k<10. length (split_on TAB (join_with TAB [''1'', ''foo''])) \<le> k \<longrightarrow>
           Token_fields t ! k = Undefined) \<and>
      (\<forall>k<10. 0 < k \<and> k < length (split_on TAB (join_with TAB [''1'', ''foo''])) \<longrightarrow>
           Token_fields t ! k = Str (split_on TAB (join_with TAB [''1'', ''foo'']) ! k))) \<and>
   Token_serial_assign new_Token (join_with TAB [''1'', ''foo'']) =
     Assigned (new_Token\<lparr>id_t := Num (Fin 1), form := Str ''foo'', lemma_t := Undefined\<rparr>) \<and>
   Token_serial_assign new_Token (join_with TAB [''8.1'', ''foo'']) =
     Assigned_id_unevaluated (new_Token\<lparr>form := Str ''foo'', lemma_t := Undefined\<rparr>)"
proof -
  have h1: "length (split_on TAB (join_with TAB [''1'', ''foo''])) < 10"
    by code_simp
  have e1: "Token_serial_assign new_Token (join_with TAB [''1'', ''foo'']) =
      Assigned (new_Token\<lparr>id_t := Num (Fin 1), form := Str ''foo'', lemma_t := Undefined\<rparr>)"
    by code_simp
  have e2: "Token_serial_assign new_Token (join_with TAB [''8.1'', ''foo'']) =
      Assigned_id_unevaluated (new_Token\<lparr>form := Str ''foo'', lemma_t := Undefined\<rparr>)"
    by code_simp
  from Token_parse_short_line_unset [OF h1] h1 e1 e2 show ?thesis
    by (simp only: simp_thms)
qed

lemma field_output_placeholder: "v = Undefined \<or> v = Str [] \<Longrightarrow> field_output v = ''_''"
  by (auto simp: field_output_def is_set_def)

text \<open>
  C8 fails on the code for the form field. A token with id 1 and the empty form (the
  form of a \<open>new Token()\<close>) is serialised with an empty second field, not with the
  placeholder: \<open>form_output\<close> is guarded by \<open>this.id\<close>. The eight annotation fields,
  which are unset, are rendered as the placeholder, as \<open>field_output_placeholder\<close> says
  of every field but the form.
\<close>

theorem Token_serial_empty_form_not_placeholder:
  "Token_serial (new_Token\<lparr>id_t := Num (Fin 1)\<rparr>) =
     join_with TAB [''1'', [], ''_'', ''_'', ''_'', ''_'', ''_'', ''_'', ''_'', ''_'']"
  by code_simp

section \<open>Sentence: the setter of serial\<close>

text \<open>
  C10: assigning a text to \<open>serial\<close> gives the same result whatever the sentence held
  before; the setter starts by emptying \<open>metadata\<close> and \<open>tokens\<close>.
\<close>

theorem Sentence_serial_set_independent_of_state:
  "Sentence_serial_set s1 T = Sentence_serial_set s2 T"
  by (cases s1, cases s2) (simp add: Sentence_serial_set_def)

section \<open>Decimal numerals\<close>

lemma digit_val_digit_char: "0 \<le> d \<Longrightarrow> d < 10 \<Longrightarrow> digit_val (digit_char d) = d"
  by (simp add: digit_val_def digit_char_def)

lemma is_digit_digit_char: "0 \<le> d \<Longrightarrow> d < 10 \<Longrightarrow> is_digit (digit_char d)"
  by (simp add: is_digit_def digit_char_def)

lemma digit_char_digit_val: "is_digit c \<Longrightarrow> digit_char (digit_val c) = c"
  by (simp add: is_digit_def digit_char_def digit_val_def)

lemma digit_val_range: "is_digit c \<Longrightarrow> 0 \<le> digit_val c \<and> digit_val c < 10"
  by (simp add: is_digit_def digit_val_def)

lemma not_digit_dash: "\<not> is_digit CHR ''-''"
  by (simp add: is_digit_def)

lemma int_of_digits_snoc: "int_of_digits (xs @ [c]) = 10 * int_of_digits xs + digit_val c"
  by (simp add: int_of_digits_def)

lemma dec_digits_all_digits: "0 \<le> n \<Longrightarrow> list_all is_digit (dec_digits n)"
proof (induction n rule: dec_digits.induct)
  case (1 n)
  show ?case
  proof (cases "n < 10")
    case True
    with "1.prems" show ?thesis
      by (subst dec_digits.simps) (simp add: is_digit_digit_char)
  next
    case False
    with "1.prems" "1.IH" have "list_all is_digit (dec_digits (n div 10))" by simp
    moreover have "is_digit (digit_char (n mod 10))"
      by (rule is_digit_digit_char) simp_all
    ultimately show ?thesis using False
      by (subst dec_digits.simps) simp
  qed
qed

lemma int_of_dec_digits: "0 \<le> n \<Longrightarrow> int_of_digits (dec_digits n) = n"
proof (induction n rule: dec_digits.induct)
  case (1 n)
  show ?case
  proof (cases "n < 10")
    case True
    with "1.prems" show ?thesis
      by (subst dec_digits.simps) (simp add: int_of_digits_def digit_val_digit_char)
  next
    case False
    with "1.prems" "1.IH" have "int_of_digits (dec_digits (n div 10)) = n div 10" by simp
    moreover have "digit_val (digit_char (n mod 10)) = n mod 10"
      by (rule digit_val_digit_char) simp_all
    ultimately show ?thesis using False
      by (subst dec_digits.simps) (simp add: int_of_digits_snoc)
  qed
qed

lemma dec_digits_inj: "0 \<le> a \<Longrightarrow> 0 \<le> b \<Longrightarrow> dec_digits a = dec_digits b \<Longrightarrow> a = b"
  using int_of_dec_digits by metis

lemma digits_before_dash:
  assumes "list_all is_digit a" and "list_all is_digit b"
    and "a @ CHR ''-'' # x = b @ CHR ''-'' # y"
  shows "a = b"
proof -
  have "takeWhile is_digit (a @ CHR ''-'' # x) = a"
    using assms(1) by (simp add: takeWhile_append2 list_all_iff not_digit_dash)
  moreover have "takeWhile is_digit (b @ CHR ''-'' # y) = b"
    using assms(2) by (simp add: takeWhile_append2 list_all_iff not_digit_dash)
  ultimately show ?thesis using assms(3) by simp
qed

lemma range_id_first:
  assumes "0 \<le> a" and "0 \<le> k"
    and "ToString (Num (Fin a)) @ CHR ''-'' # x = ToString (Num (Fin k)) @ CHR ''-'' # y"
  shows "a = k"
  using assms digits_before_dash [OF dec_digits_all_digits [OF assms(1)]
      dec_digits_all_digits [OF assms(2)], of x y] dec_digits_inj [of a k]
  by simp

section \<open>expand and collapse\<close>

lemma renumber_token_int:
  "int_id (id_t t) \<Longrightarrow> renumber_token d t = Inr (shift_token d t)"
  by (cases "id_t t" rule: int_id.cases) (simp_all add: renumber_token_def shift_token_def)

lemma map_result_renumber_int:
  "list_all (\<lambda>t. int_id (id_t t)) cs \<Longrightarrow>
   map_result (renumber_token d) cs = Inr (map (shift_token d) cs)"
  by (induction cs) (simp_all add: renumber_token_int)

lemma renumber_entry_int:
  "int_ids e \<Longrightarrow> renumber_entry d e = Inr (shift_entry d e)"
  by (cases e) (simp_all add: int_ids_def renumber_token_int map_result_renumber_int list_all_iff)

lemma expand_loop_found:
  "list_all int_ids es \<Longrightarrow> expand_loop True token_id index es = Inr (map (shift_entry 1) es)"
  by (induction es) (simp_all add: renumber_entry_int)

lemma collapse_loop_found:
  "list_all int_ids es \<Longrightarrow>
   collapse_loop (Some len) token_id es = Inr (map (shift_entry (- (int len - 1))) es)"
  by (induction es) (simp_all add: renumber_entry_int)

lemma expand_loop_skip:
  "list_all (expand_skips token_id) pre \<Longrightarrow>
   expand_loop False token_id index (pre @ rest) =
     (case expand_loop False token_id index rest of Inl err \<Rightarrow> Inl err | Inr r \<Rightarrow> Inr (pre @ r))"
proof (induction pre)
  case Nil
  then show ?case by (simp split: sum.splits)
next
  case (Cons e pre)
  then show ?case
    by (cases e) (auto simp: MultiwordToken_id_def split: sum.splits list.splits)
qed

lemma collapse_loop_skip:
  "list_all (collapse_skips token_id) pre \<Longrightarrow>
   collapse_loop None token_id (pre @ rest) =
     (case collapse_loop None token_id rest of Inl err \<Rightarrow> Inl err | Inr r \<Rightarrow> Inr (pre @ r))"
proof (induction pre)
  case Nil
  then show ?case by (simp split: sum.splits)
next
  case (Cons e pre)
  then show ?case
    by (cases e) (auto simp: MultiwordToken_id_def strict_eq_def split: sum.splits list.splits)
qed

lemma safe_int_id: "safe_id v \<Longrightarrow> int_id v"
  by (cases v rule: safe_id.cases) simp_all

lemma safe_positive_id: "safe_id v \<Longrightarrow> positive_id v"
  by (cases v rule: safe_id.cases) simp_all

lemma safe_int_ids: "safe_ids e \<Longrightarrow> int_ids e"
  using safe_int_id by (auto simp: safe_ids_def int_ids_def list_all_iff)

lemma safe_int_ids_all: "list_all safe_ids es \<Longrightarrow> list_all int_ids es"
  using safe_int_ids by (auto simp: list_all_iff)

lemma slice_take_drop:
  "0 \<le> index \<Longrightarrow> index \<le> int (length f) \<Longrightarrow>
   slice_to f index = take (nat index) f \<and> slice_from f index = drop (nat index) f"
  by (simp add: slice_to_def slice_from_def slice_pos_def min_def)

lemma expand_at:
  assumes "tokens s = pre @ Tok t # post"
    and "id_t t = Num (Fin k)"
    and "form t = Str f"
    and "list_all (expand_skips (Num (Fin k))) pre"
    and "list_all int_ids post"
  shows "expand s (Num (Fin k)) index =
           Inr (s\<lparr>tokens :=
                  pre @
                  Mwt \<lparr>form_m = Str f,
                       tokens_m = [token_of k (slice_to f index),
                                   token_of (k + 1) (slice_from f index)]\<rparr> #
                  map (shift_entry 1) post\<rparr>)"
proof -
  have "expand_loop False (Num (Fin k)) index (Tok t # post) =
          Inr (Mwt \<lparr>form_m = Str f,
                    tokens_m = [token_of k (slice_to f index),
                                token_of (k + 1) (slice_from f index)]\<rparr> #
               map (shift_entry 1) post)"
    using assms(2,3) expand_loop_found [OF assms(5), of "Num (Fin k)" index]
    by (simp add: strict_eq_def token_of_def new_MultiwordToken_def new_Token_def)
  then have "expand_loop False (Num (Fin k)) index (tokens s) =
          Inr (pre @ Mwt \<lparr>form_m = Str f,
                    tokens_m = [token_of k (slice_to f index),
                                token_of (k + 1) (slice_from f index)]\<rparr> #
               map (shift_entry 1) post)"
    using expand_loop_skip [OF assms(4), of index "Tok t # post"] assms(1) by simp
  then show ?thesis
    by (simp add: expand_def)
qed

text \<open>
  C4: let \<open>t\<close> be the first standalone token with the id \<open>k\<close>, a positive integer
  below \<open>2^53\<close>, and let its form be the string \<open>f\<close> (the groups before it have
  children, so that their ids can be read); let the ids after it be positive integers
  below \<open>2^53\<close>. Then \<open>expand(k, index)\<close> puts, in the place of \<open>t\<close>, a group with form
  \<open>f\<close> whose two children have the forms \<open>f.slice(0, index)\<close> and \<open>f.slice(index)\<close> and
  the ids \<open>k\<close> and \<open>k + 1\<close>; the entries before it are kept and every id after it is
  increased by 1. For \<open>0 \<le> index \<le> length f\<close> the two slices are the first \<open>index\<close>
  characters of \<open>f\<close> and the rest.
\<close>

theorem expand_replaces_in_place:
  assumes "tokens s = pre @ Tok t # post"
    and "id_t t = Num (Fin k)"
    and "0 < k" and "k < 2 ^ 53"
    and "form t = Str f"
    and "list_all (expand_skips (Num (Fin k))) pre"
    and "list_all safe_ids post"
  shows "expand s (Num (Fin k)) index =
           Inr (s\<lparr>tokens :=
                  pre @
                  Mwt \<lparr>form_m = Str f,
                       tokens_m = [token_of k (slice_to f index),
                                   token_of (k + 1) (slice_from f index)]\<rparr> #
                  map (shift_entry 1) post\<rparr>) \<and>
         (0 \<le> index \<and> index \<le> int (length f) \<longrightarrow>
            slice_to f index = take (nat index) f \<and> slice_from f index = drop (nat index) f)"
  using expand_at [OF assms(1,2,5,6) safe_int_ids_all [OF assms(7)]] slice_take_drop [of index f]
  by simp

text \<open>
  C4 at the scenario: \<open>expand(1, 1)\<close> on the tokens \<open>1 ab\<close>, \<open>2 c\<close> gives the group of
  \<open>1 a\<close> and \<open>2 b\<close>, followed by \<open>3 c\<close>.
\<close>

theorem expand_replaces_in_place_witness:
  "expand ab_c (Num (Fin 1)) 1 =
     Inr \<lparr>metadata = [],
          tokens = [Mwt \<lparr>form_m = Str ''ab'',
                         tokens_m = [token_of 1 ''a'', token_of 2 ''b'']\<rparr>,
                    Tok (token_of 3 ''c'')]\<rparr>"
proof -
  have h1: "tokens ab_c = [] @ Tok (token_of 1 ''ab'') # [Tok (token_of 2 ''c'')]"
    by (simp add: ab_c_def)
  have h2: "id_t (token_of 1 ''ab'') = Num (Fin 1)" by (simp add: token_of_def)
  have h3: "(0::int) < 1" "(1::int) < 2 ^ 53" by simp_all
  have h4: "form (token_of 1 ''ab'') = Str ''ab''" by (simp add: token_of_def)
  have h5: "list_all (expand_skips (Num (Fin 1))) []" by simp
  have h6: "list_all safe_ids [Tok (token_of 2 ''c'')]"
    by (simp add: safe_ids_def token_of_def)
  have s1: "slice_to ''ab'' 1 = ''a''" "slice_from ''ab'' 1 = ''b''"
    by (simp_all add: slice_to_def slice_from_def slice_pos_def)
  show ?thesis
    using expand_replaces_in_place [OF h1 h2 h3 h4 h5 h6, of 1]
    by (simp add: s1 ab_c_def shift_token_def token_of_def)
qed

lemma collapse_group:
  assumes "tokens s = pre @ Mwt m # post"
    and "MultiwordToken_id m = Inr token_id"
    and "tokens_m m = c # cs"
    and "id_t c = Num (Fin k)"
    and "list_all (collapse_skips token_id) pre"
    and "list_all int_ids post"
  shows "collapse s token_id =
           Inr (s\<lparr>tokens :=
                  pre @ Tok (new_Token\<lparr>id_t := Num (Fin k), form := form_m m\<rparr>) #
                  map (shift_entry (- (int (length (tokens_m m)) - 1))) post\<rparr>)"
proof -
  have ne: "token_id \<noteq> Num NaN"
    using assms(2,3) by (auto simp: MultiwordToken_id_def)
  have "collapse_loop None token_id (Mwt m # post) =
          Inr (Tok (new_Token\<lparr>id_t := Num (Fin k), form := form_m m\<rparr>) #
               map (shift_entry (- (int (length (tokens_m m)) - 1))) post)"
    using assms(2,3,4) ne collapse_loop_found [OF assms(6), of "length (tokens_m m)" token_id]
    by (simp add: strict_eq_def)
  then show ?thesis
    using collapse_loop_skip [OF assms(5), of "Mwt m # post"] assms(1)
    by (simp add: collapse_def)
qed

lemma collapse_no_group:
  assumes "list_all (collapse_skips token_id) (tokens s)"
  shows "collapse s token_id = Inr s"
  using collapse_loop_skip [OF assms, of "[]"] by (simp add: collapse_def)

text \<open>
  C5: let the ids of the sentence be positive integers below \<open>2^53\<close>. Let the group
  \<open>m\<close>, with fewer than \<open>2^32\<close> children, be the first entry whose id is \<open>token_id\<close>
  (the groups before it have children and other ids). Then \<open>collapse(token_id)\<close> puts,
  in the place of \<open>m\<close>, a new token with the id of the first child and the form of the
  group; the entries before it are kept and every id after it is decreased by the
  number of children minus 1. When no group of the sentence has the id \<open>token_id\<close>
  (the entries with this id, if any, are standalone tokens), the sentence is left as
  it is.
\<close>

theorem collapse_replaces_group:
  "(tokens s = pre @ Mwt m # post \<and> list_all safe_ids (tokens s) \<and>
    length (tokens_m m) < 2 ^ 32 \<and> MultiwordToken_id m = Inr token_id \<and>
    tokens_m m = c # cs \<and> list_all (collapse_skips token_id) pre \<longrightarrow>
    collapse s token_id =
      Inr (s\<lparr>tokens :=
             pre @ Tok (new_Token\<lparr>id_t := id_t c, form := form_m m\<rparr>) #
             map (shift_entry (- (int (length (tokens_m m)) - 1))) post\<rparr>)) \<and>
   (list_all safe_ids (tokens s) \<and> list_all (collapse_skips token_id) (tokens s) \<longrightarrow>
    collapse s token_id = Inr s)"
proof -
  have "collapse s token_id =
      Inr (s\<lparr>tokens :=
             pre @ Tok (new_Token\<lparr>id_t := id_t c, form := form_m m\<rparr>) #
             map (shift_entry (- (int (length (tokens_m m)) - 1))) post\<rparr>)"
    if a: "tokens s = pre @ Mwt m # post" and b: "list_all safe_ids (tokens s)"
      and c: "MultiwordToken_id m = Inr token_id" and d: "tokens_m m = c # cs"
      and e: "list_all (collapse_skips token_id) pre"
  proof -
    from a b d have "safe_id (id_t c)" by (simp add: safe_ids_def)
    then obtain k where k: "id_t c = Num (Fin k)"
      by (cases "id_t c" rule: safe_id.cases) simp_all
    from a b have "list_all int_ids post" by (simp add: safe_int_ids_all)
    from collapse_group [OF a c d k e this] k show ?thesis by simp
  qed
  then show ?thesis using collapse_no_group [of token_id s] by blast
qed

text \<open>
  C5 at the scenario: collapsing the group \<open>1-2\<close> of \<open>1 a\<close> and \<open>2 b\<close>, followed by
  \<open>3 c\<close>, gives the tokens \<open>1 ab\<close>, \<open>2 c\<close>; and \<open>collapse(1)\<close> on these tokens, where the
  entry with id 1 is a standalone token, changes nothing.
\<close>

theorem collapse_replaces_group_witness:
  "collapse a_b_c (Str ''1-2'') = Inr ab_c \<and> collapse ab_c (Num (Fin 1)) = Inr ab_c"
proof -
  have h1: "tokens a_b_c =
      [] @ Mwt \<lparr>form_m = Str ''ab'', tokens_m = [token_of 1 ''a'', token_of 2 ''b'']\<rparr> #
      [Tok (token_of 3 ''c'')]"
    by (simp add: a_b_c_def)
  have h2: "MultiwordToken_id \<lparr>form_m = Str ''ab'', tokens_m = [token_of 1 ''a'', token_of 2 ''b'']\<rparr> =
      Inr (Str ''1-2'')"
    by code_simp
  have h3: "tokens_m \<lparr>form_m = Str ''ab'', tokens_m = [token_of 1 ''a'', token_of 2 ''b'']\<rparr> =
      token_of 1 ''a'' # [token_of 2 ''b'']"
    by simp
  have h4: "list_all safe_ids (tokens a_b_c)"
    by (simp add: a_b_c_def safe_ids_def token_of_def)
  have h5: "list_all (collapse_skips (Str ''1-2'')) []" by simp
  have h6: "length (tokens_m \<lparr>form_m = Str ''ab'',
      tokens_m = [token_of 1 ''a'', token_of 2 ''b'']\<rparr>) < 2 ^ 32"
    by simp
  have h7: "list_all (collapse_skips (Num (Fin 1))) (tokens ab_c)" by (simp add: ab_c_def)
  have h8: "list_all safe_ids (tokens ab_c)"
    by (simp add: ab_c_def safe_ids_def token_of_def)
  have a: "collapse a_b_c (Str ''1-2'') = Inr ab_c"
    using collapse_replaces_group [of a_b_c "[]"
        "\<lparr>form_m = Str ''ab'', tokens_m = [token_of 1 ''a'', token_of 2 ''b'']\<rparr>"
        "[Tok (token_of 3 ''c'')]" "Str ''1-2''" "token_of 1 ''a''" "[token_of 2 ''b'']"]
      h1 h2 h3 h4 h5 h6
    by (simp add: a_b_c_def ab_c_def token_of_def shift_token_def)
  have b: "collapse ab_c (Num (Fin 1)) = Inr ab_c"
    using collapse_replaces_group [of ab_c "[]" undefined "[]" "Num (Fin 1)" undefined "[]"] h7 h8
    by blast
  from a b show ?thesis by simp
qed

lemma shift_back_token: "int_id (id_t t) \<Longrightarrow> shift_token (- 1) (shift_token 1 t) = t"
  by (cases "id_t t" rule: int_id.cases) (simp_all add: shift_token_def)

lemma shift_back_entry:
  assumes "int_ids e"
  shows "shift_entry (- 1) (shift_entry 1 e) = e"
proof (cases e)
  case (Tok t)
  with assms show ?thesis by (simp add: int_ids_def shift_back_token)
next
  case (Mwt m)
  with assms have "map (shift_token (- 1) \<circ> shift_token 1) (tokens_m m) = tokens_m m"
    by (simp add: int_ids_def list_all_iff map_idI shift_back_token)
  with Mwt show ?thesis by simp
qed

lemma shift_back_entries:
  "list_all int_ids es \<Longrightarrow> map (shift_entry (- 1)) (map (shift_entry 1) es) = es"
  by (induction es) (simp_all add: shift_back_entry)

lemma int_ids_shift: "int_ids e \<Longrightarrow> int_ids (shift_entry d e)"
proof -
  have "int_id v \<Longrightarrow> int_id (shift_id d v)" for v
    by (cases v rule: int_id.cases) simp_all
  then show "int_ids e \<Longrightarrow> int_ids (shift_entry d e)"
    by (cases e) (simp_all add: int_ids_def list_all_iff shift_token_def)
qed

lemma positive_int_id: "positive_id v \<Longrightarrow> int_id v"
  by (cases v rule: positive_id.cases) simp_all

lemma positive_int_ids:
  "list_all positive_id (concat (map entry_ids es)) \<Longrightarrow> list_all int_ids es"
proof (induction es)
  case Nil
  then show ?case by simp
next
  case (Cons e es)
  from Cons.prems have "list_all positive_id (entry_ids e)" by simp
  then have "int_ids e"
    using positive_int_id by (auto simp: int_ids_def list_all_iff)
  with Cons show ?case by simp
qed

lemma counts_from_append:
  "counts_from i (a @ b) = (counts_from i a \<and> counts_from (i + int (length a)) b)"
  by (induction a arbitrary: i) (auto simp: add.assoc)

lemma counts_from_int: "counts_from i vs \<Longrightarrow> list_all int_id vs"
  by (induction vs arbitrary: i) auto

lemma counts_from_iff:
  "counts_from i vs \<longleftrightarrow> vs = map (\<lambda>j. Num (Fin j)) [i..i + int (length vs) - 1]"
proof (induction vs arbitrary: i)
  case Nil
  then show ?case by simp
next
  case (Cons v vs)
  have "[i..i + int (length (v # vs)) - 1] = i # [i + 1..(i + 1) + int (length vs) - 1]"
    by (simp add: upto_rec1)
  then show ?case using Cons.IH [of "i + 1"] by auto
qed

lemma ids_upto_counts: "counts_from 1 (ids_upto n)"
proof -
  have "length (ids_upto n) = nat n" by (simp add: ids_upto_def)
  then have "ids_upto n = map (\<lambda>j. Num (Fin j)) [1..1 + int (length (ids_upto n)) - 1]"
    by (cases "0 \<le> n") (simp_all add: ids_upto_def)
  then show ?thesis using counts_from_iff by blast
qed

lemma counts_ids_upto: "counts_from 1 vs \<Longrightarrow> vs = ids_upto (int (length vs))"
  using counts_from_iff [of 1 vs] by (simp add: ids_upto_def)

lemma entry_ids_shift: "entry_ids (shift_entry d e) = map (shift_id d) (entry_ids e)"
  by (cases e) (simp_all add: shift_token_def)

lemma counts_from_shift: "counts_from i vs \<Longrightarrow> counts_from (i + d) (map (shift_id d) vs)"
proof (induction vs arbitrary: i)
  case Nil
  then show ?case by simp
next
  case (Cons v vs)
  have eq: "i + d + 1 = i + 1 + d" by simp
  from Cons.prems have "counts_from (i + 1 + d) (map (shift_id d) vs)"
    using Cons.IH [of "i + 1"] by simp
  with Cons.prems show ?case by (simp only: eq list.map counts_from.simps shift_id.simps)
qed

lemma ids_shift_entries:
  "concat (map entry_ids (map (shift_entry d) es)) = map (shift_id d) (concat (map entry_ids es))"
  by (induction es) (simp_all add: entry_ids_shift)

lemma counts_int_ids:
  "counts_from i (concat (map entry_ids es)) \<Longrightarrow> list_all int_ids es"
proof (induction es arbitrary: i)
  case Nil
  then show ?case by simp
next
  case (Cons e es)
  then show ?case
    by (auto simp: counts_from_append int_ids_def dest: counts_from_int)
qed

lemma shifted_counts:
  "counts_from i (concat (map entry_ids es)) \<Longrightarrow>
   counts_from (i + d) (concat (map entry_ids (map (shift_entry d) es)))"
  by (simp only: ids_shift_entries counts_from_shift)

lemma expand_loop_found_counts:
  assumes "counts_from i (concat (map entry_ids es))"
  shows "expand_loop True token_id index es = Inr (map (shift_entry 1) es)"
    and "counts_from (i + 1) (concat (map entry_ids (map (shift_entry 1) es)))"
  using expand_loop_found [OF counts_int_ids [OF assms]] shifted_counts [OF assms]
  by blast+

lemma collapse_loop_found_counts:
  assumes "counts_from i (concat (map entry_ids es))"
  shows "collapse_loop (Some len) token_id es = Inr (map (shift_entry (- (int len - 1))) es)"
    and "counts_from (i + (- (int len - 1)))
           (concat (map entry_ids (map (shift_entry (- (int len - 1))) es)))"
  using collapse_loop_found [OF counts_int_ids [OF assms]] shifted_counts [OF assms]
  by blast+

lemma expand_loop_counts:
  "counts_from i (concat (map entry_ids es)) \<Longrightarrow>
   expand_loop False token_id index es = Inr es' \<Longrightarrow>
   counts_from i (concat (map entry_ids es'))"
proof (induction es arbitrary: i es')
  case Nil
  then show ?case by simp
next
  case (Cons e es)
  show ?case
  proof (cases e)
    case (Tok t)
    with Cons.prems(1) have idt: "id_t t = Num (Fin i)"
      and rest: "counts_from (i + 1) (concat (map entry_ids es))"
      by simp_all
    show ?thesis
    proof (cases "strict_eq (id_t t) token_id")
      case True
      from Cons.prems(2) Tok True obtain f where f: "form t = Str f"
        by (cases "form t") simp_all
      have shifted: "counts_from (i + 1 + 1) (concat (map entry_ids (map (shift_entry 1) es)))"
        using expand_loop_found_counts(2) [OF rest] .
      from Cons.prems(2) Tok True f idt
      have "es' = Mwt (new_MultiwordToken\<lparr>form_m := form t,
                   tokens_m := [new_Token\<lparr>form := Str (slice_to f index), id_t := id_t t\<rparr>,
                                new_Token\<lparr>form := Str (slice_from f index),
                                           id_t := Num (Fin (i + 1))\<rparr>]\<rparr>) #
                  map (shift_entry 1) es"
        by (simp add: expand_loop_found_counts(1) [OF rest])
      then show ?thesis using shifted idt by simp
    next
      case False
      from Cons.prems(2) Tok False obtain es'' where
        "expand_loop False token_id index es = Inr es''" and "es' = Tok t # es''"
        by (auto split: sum.splits)
      then show ?thesis using Cons.IH [OF rest] idt by simp
    qed
  next
    case (Mwt m)
    with Cons.prems(1) have own: "counts_from i (map id_t (tokens_m m))"
      and rest: "counts_from (i + int (length (tokens_m m))) (concat (map entry_ids es))"
      by (simp_all add: counts_from_append)
    from Cons.prems(2) Mwt obtain es'' where
      "expand_loop False token_id index es = Inr es''" and "es' = Mwt m # es''"
      by (auto split: sum.splits)
    then show ?thesis using Cons.IH [OF rest] own by (simp add: counts_from_append)
  qed
qed

lemma collapse_loop_counts:
  "counts_from i (concat (map entry_ids es)) \<Longrightarrow>
   collapse_loop None token_id es = Inr es' \<Longrightarrow>
   counts_from i (concat (map entry_ids es'))"
proof (induction es arbitrary: i es')
  case Nil
  then show ?case by simp
next
  case (Cons e es)
  show ?case
  proof (cases e)
    case (Tok t)
    with Cons.prems(1) have idt: "id_t t = Num (Fin i)"
      and rest: "counts_from (i + 1) (concat (map entry_ids es))"
      by simp_all
    from Cons.prems(2) Tok obtain es'' where
      "collapse_loop None token_id es = Inr es''" and "es' = Tok t # es''"
      by (auto split: sum.splits)
    then show ?thesis using Cons.IH [OF rest] idt by simp
  next
    case (Mwt m)
    with Cons.prems(1) have own: "counts_from i (map id_t (tokens_m m))"
      and rest: "counts_from (i + int (length (tokens_m m))) (concat (map entry_ids es))"
      by (simp_all add: counts_from_append)
    from Cons.prems(2) Mwt obtain j where j: "MultiwordToken_id m = Inr j"
      by (auto split: sum.splits)
    show ?thesis
    proof (cases "strict_eq j token_id")
      case True
      from Cons.prems(2) Mwt j True obtain c cs where ccs: "tokens_m m = c # cs"
        by (cases "tokens_m m") simp_all
      with own have idc: "id_t c = Num (Fin i)" by simp
      have shifted: "counts_from (i + int (length (tokens_m m)) + (- (int (length (tokens_m m)) - 1)))
            (concat (map entry_ids (map (shift_entry (- (int (length (tokens_m m)) - 1))) es)))"
        using collapse_loop_found_counts(2) [OF rest] .
      from Cons.prems(2) Mwt j True ccs idc
      have "es' = Tok (new_Token\<lparr>id_t := Num (Fin i), form := form_m m\<rparr>) #
                  map (shift_entry (- (int (length (tokens_m m)) - 1))) es"
        using collapse_loop_found_counts(1) [OF rest, of "length (tokens_m m)" token_id]
        by simp
      then show ?thesis using shifted by simp
    next
      case False
      from Cons.prems(2) Mwt j False obtain es'' where
        "collapse_loop None token_id es = Inr es''" and "es' = Mwt m # es''"
        by (auto split: sum.splits)
      then show ?thesis using Cons.IH [OF rest] own by (simp add: counts_from_append)
    qed
  qed
qed

lemma editable_shift: "editable_entry (shift_entry d e) = editable_entry e"
  by (cases e) (simp_all add: shift_token_def)

lemma editable_shift_all:
  "list_all editable_entry (map (shift_entry d) es) = list_all editable_entry es"
  by (induction es) (simp_all add: editable_shift)

lemma expand_loop_total:
  "counts_from i (concat (map entry_ids es)) \<Longrightarrow> list_all editable_entry es \<Longrightarrow>
   \<exists>es'. expand_loop False token_id index es = Inr es' \<and> list_all editable_entry es'"
proof (induction es arbitrary: i)
  case Nil
  then show ?case by simp
next
  case (Cons e es)
  show ?case
  proof (cases e)
    case (Tok t)
    with Cons.prems have idt: "id_t t = Num (Fin i)"
      and rest: "counts_from (i + 1) (concat (map entry_ids es))"
      and ed: "list_all editable_entry es"
      by simp_all
    from Cons.prems(2) Tok obtain f where f: "form t = Str f"
      by (cases "form t") simp_all
    from Cons.IH [OF rest ed] obtain es'' where
      es'': "expand_loop False token_id index es = Inr es''" "list_all editable_entry es''"
      by blast
    show ?thesis
      using Tok idt f es'' ed expand_loop_found_counts(1) [OF rest, of token_id index]
      by (simp add: editable_shift_all new_MultiwordToken_def)
  next
    case (Mwt m)
    with Cons.prems have own: "counts_from i (map id_t (tokens_m m))"
      and rest: "counts_from (i + int (length (tokens_m m))) (concat (map entry_ids es))"
      and ed: "list_all editable_entry es" and ne: "tokens_m m \<noteq> []"
      by (simp_all add: counts_from_append)
    from Cons.IH [OF rest ed] obtain es'' where
      es'': "expand_loop False token_id index es = Inr es''" "list_all editable_entry es''"
      by blast
    show ?thesis
      using Mwt ne es'' Cons.prems(2)
      by (auto simp: MultiwordToken_id_def split: list.splits)
  qed
qed

lemma collapse_loop_total:
  "counts_from i (concat (map entry_ids es)) \<Longrightarrow> list_all editable_entry es \<Longrightarrow>
   \<exists>es'. collapse_loop None token_id es = Inr es' \<and> list_all editable_entry es'"
proof (induction es arbitrary: i)
  case Nil
  then show ?case by simp
next
  case (Cons e es)
  show ?case
  proof (cases e)
    case (Tok t)
    with Cons.prems have rest: "counts_from (i + 1) (concat (map entry_ids es))"
      and ed: "list_all editable_entry es"
      by simp_all
    from Cons.IH [OF rest ed] obtain es'' where
      es'': "collapse_loop None token_id es = Inr es''" "list_all editable_entry es''"
      by blast
    show ?thesis using Tok es'' Cons.prems(2) by simp
  next
    case (Mwt m)
    with Cons.prems have own: "counts_from i (map id_t (tokens_m m))"
      and rest: "counts_from (i + int (length (tokens_m m))) (concat (map entry_ids es))"
      and ed: "list_all editable_entry es" and fm: "is_Str (form_m m)"
      by (simp_all add: counts_from_append)
    from Cons.prems(2) Mwt obtain c cs where ccs: "tokens_m m = c # cs"
      by (cases "tokens_m m") simp_all
    with own have idc: "id_t c = Num (Fin i)" by simp
    from Cons.IH [OF rest ed] obtain es'' where
      es'': "collapse_loop None token_id es = Inr es''" "list_all editable_entry es''"
      by blast
    show ?thesis
      using Mwt ccs idc es'' ed fm Cons.prems(2)
        collapse_loop_found_counts(1) [OF rest, of "length (tokens_m m)" token_id]
      by (simp add: MultiwordToken_id_def editable_shift_all)
  qed
qed

lemma apply_edit_counts:
  assumes "counts_from 1 (sentence_ids s)" and "apply_edit s ed = Inr s'"
  shows "counts_from 1 (sentence_ids s')"
proof (cases ed)
  case (Expand token_id index)
  with assms(2) obtain es' where "expand_loop False token_id index (tokens s) = Inr es'"
    and "s' = s\<lparr>tokens := es'\<rparr>"
    by (auto simp: expand_def split: sum.splits)
  then show ?thesis
    using expand_loop_counts [of 1 "tokens s" token_id index es'] assms(1)
    by (simp add: sentence_ids_def)
next
  case (Collapse token_id)
  with assms(2) obtain es' where "collapse_loop None token_id (tokens s) = Inr es'"
    and "s' = s\<lparr>tokens := es'\<rparr>"
    by (auto simp: collapse_def split: sum.splits)
  then show ?thesis
    using collapse_loop_counts [of 1 "tokens s" token_id es'] assms(1)
    by (simp add: sentence_ids_def)
qed

lemma apply_edit_total:
  assumes "counts_from 1 (sentence_ids s)" and "editable s"
  shows "\<exists>s'. apply_edit s ed = Inr s' \<and> editable s'"
proof (cases ed)
  case (Expand token_id index)
  then show ?thesis
    using expand_loop_total [of 1 "tokens s" token_id index] assms
    by (auto simp: expand_def sentence_ids_def editable_def)
next
  case (Collapse token_id)
  then show ?thesis
    using collapse_loop_total [of 1 "tokens s" token_id] assms
    by (auto simp: collapse_def sentence_ids_def editable_def)
qed

lemma apply_edits_counts:
  "counts_from 1 (sentence_ids s) \<Longrightarrow> apply_edits s eds = Inr s' \<Longrightarrow>
   counts_from 1 (sentence_ids s')"
proof (induction eds arbitrary: s)
  case Nil
  then show ?case by simp
next
  case (Cons ed eds)
  from Cons.prems(2) obtain s1 where s1: "apply_edit s ed = Inr s1" "apply_edits s1 eds = Inr s'"
    by (auto split: sum.splits)
  from Cons.IH [OF apply_edit_counts [OF Cons.prems(1) s1(1)] s1(2)] show ?case .
qed

lemma apply_edits_total:
  "counts_from 1 (sentence_ids s) \<Longrightarrow> editable s \<Longrightarrow> \<exists>s'. apply_edits s eds = Inr s'"
proof (induction eds arbitrary: s)
  case Nil
  then show ?case by simp
next
  case (Cons ed eds)
  from apply_edit_total [OF Cons.prems, of ed] obtain s1 where
    s1: "apply_edit s ed = Inr s1" "editable s1"
    by blast
  from Cons.IH [OF apply_edit_counts [OF Cons.prems(1) s1(1)] s1(2)] s1(1) show ?case
    by simp
qed

text \<open>
  C3, amended: when the ids of a sentence, read in display order over the standalone
  tokens and the children of the groups, are \<open>1, 2, ..., n\<close>, then after any sequence
  of \<open>expand\<close> and \<open>collapse\<close> calls that return they are \<open>1, 2, ..., m\<close> for some \<open>m\<close>, in
  display order again. When moreover every form is a string and every group has a
  child, every call of the sequence returns.
\<close>

theorem edits_keep_ids_in_order:
  assumes "sentence_ids s = ids_upto n"
  shows "(\<forall>s'. apply_edits s eds = Inr s' \<longrightarrow> (\<exists>m. sentence_ids s' = ids_upto m)) \<and>
         (editable s \<longrightarrow> (\<exists>s'. apply_edits s eds = Inr s'))"
proof -
  have c: "counts_from 1 (sentence_ids s)"
    using assms ids_upto_counts by simp
  have "\<exists>m. sentence_ids s' = ids_upto m" if "apply_edits s eds = Inr s'" for s'
    using counts_ids_upto [OF apply_edits_counts [OF c that]] by blast
  then show ?thesis using apply_edits_total [OF c] by blast
qed

text \<open>
  The amended C3 on the tokens \<open>1 ab\<close>, \<open>2 c\<close>: two \<open>expand\<close> calls and one \<open>collapse\<close>
  call.
\<close>

theorem edits_keep_ids_in_order_witness:
  "sentence_ids ab_c = ids_upto 2 \<and> editable ab_c \<and>
   (\<exists>s'. apply_edits ab_c [Expand (Num (Fin 1)) 1, Expand (Num (Fin 3)) 0,
                           Collapse (Str ''1-2'')] = Inr s' \<and>
         (\<exists>m. sentence_ids s' = ids_upto m))"
proof -
  have h: "sentence_ids ab_c = ids_upto 2" by code_simp
  have e: "editable ab_c" by code_simp
  from edits_keep_ids_in_order [OF h] h e show ?thesis by blast
qed

text \<open>
  C3, as stated, fails: the tokens \<open>2 ab\<close>, \<open>1 c\<close> hold exactly the ids \<open>{1, 2}\<close>, once
  each. \<open>expand(2, 1)\<close> makes the group of \<open>2 a\<close> and \<open>3 b\<close> and increases the id of the
  token behind it, so the ids are \<open>2, 3, 2\<close>: \<open>2\<close> twice and no \<open>1\<close>.
\<close>

theorem expand_out_of_order_duplicates:
  "set (sentence_ids c_ab) = set (ids_upto 2) \<and> distinct (sentence_ids c_ab) \<and>
   expand c_ab (Num (Fin 2)) 1 =
     Inr \<lparr>metadata = [],
          tokens = [Mwt \<lparr>form_m = Str ''ab'', tokens_m = [token_of 2 ''a'', token_of 3 ''b'']\<rparr>,
                    Tok (token_of 2 ''c'')]\<rparr> \<and>
   sentence_ids
     \<lparr>metadata = [],
      tokens = [Mwt \<lparr>form_m = Str ''ab'', tokens_m = [token_of 2 ''a'', token_of 3 ''b'']\<rparr>,
                Tok (token_of 2 ''c'')]\<rparr> = [Num (Fin 2), Num (Fin 3), Num (Fin 2)]"
  by code_simp

lemma entry_ids_subset: "e \<in> set es \<Longrightarrow> set (entry_ids e) \<subseteq> set (concat (map entry_ids es))"
  by auto

text \<open>
  C6: let the ids of the sentence be positive integers below \<open>2^53\<close>, no two of them
  equal, and let every group have a child. Let \<open>t\<close> be a standalone token with the id \<open>k\<close> and a form
  that is a string. Then \<open>expand(k, index)\<close> returns, the entry in the place of \<open>t\<close> is
  a group, and \<open>collapse\<close> on the id of this group returns a sentence with the entries
  before and after \<open>t\<close> as they were and a token with the id and the form of \<open>t\<close> between
  them: the number of entries and the ids of every entry are those of the start. (The
  other fields of \<open>t\<close> are those of a new token.)
\<close>

theorem expand_then_collapse_restores:
  assumes "tokens s = pre @ Tok t # post"
    and "id_t t = Num (Fin k)"
    and "form t = Str f"
    and "list_all safe_id (sentence_ids s)"
    and "distinct (sentence_ids s)"
    and "list_all has_children (tokens s)"
  shows "\<exists>s1 m token_id s2.
           expand s (Num (Fin k)) index = Inr s1 \<and>
           tokens s1 ! length pre = Mwt m \<and>
           MultiwordToken_id m = Inr token_id \<and>
           collapse s1 token_id = Inr s2 \<and>
           tokens s2 = pre @ Tok (token_of k f) # post \<and>
           length (tokens s2) = length (tokens s) \<and>
           map entry_ids (tokens s2) = map entry_ids (tokens s) \<and>
           sentence_ids s2 = sentence_ids s"
proof -
  let ?ids = "\<lambda>es. concat (map entry_ids es)"
  let ?m = "\<lparr>form_m = Str f,
             tokens_m = [token_of k (slice_to f index), token_of (k + 1) (slice_from f index)]\<rparr>"
  let ?tid = "Str (ToString (Num (Fin k)) @ CHR ''-'' # ToString (Num (Fin (k + 1))))"
  let ?s1 = "s\<lparr>tokens := pre @ Mwt ?m # map (shift_entry 1) post\<rparr>"
  have ids: "sentence_ids s = ?ids pre @ Num (Fin k) # ?ids post"
    using assms(1,2) by (simp add: sentence_ids_def)
  have pos: "list_all positive_id (sentence_ids s)"
    using assms(4) safe_positive_id by (auto simp: list_all_iff)
  have kpos: "0 < k"
    using pos ids by simp
  have fresh: "Num (Fin k) \<notin> set (?ids pre)"
    using assms(5) ids by simp
  have pos_pre: "list_all positive_id (?ids pre)"
    using pos ids by simp
  have int_post: "list_all int_ids post"
    using pos ids by (simp add: positive_int_ids)
  have ch_pre: "list_all has_children pre"
    using assms(1,6) by simp
  have skipE: "list_all (expand_skips (Num (Fin k))) pre"
    unfolding list_all_iff
  proof
    fix e assume e: "e \<in> set pre"
    show "expand_skips (Num (Fin k)) e"
    proof (cases e)
      case (Tok t')
      with e fresh entry_ids_subset [OF e] have "id_t t' \<noteq> Num (Fin k)" by auto
      with Tok show ?thesis by (simp add: strict_eq_def)
    next
      case (Mwt m')
      with e ch_pre show ?thesis by (auto simp: list_all_iff)
    qed
  qed
  have skipC: "list_all (collapse_skips ?tid) pre"
    unfolding list_all_iff
  proof
    fix e assume e: "e \<in> set pre"
    show "collapse_skips ?tid e"
    proof (cases e)
      case (Tok t')
      then show ?thesis by simp
    next
      case (Mwt m')
      with e ch_pre obtain c cs where ccs: "tokens_m m' = c # cs"
        by (cases "tokens_m m'") (auto simp: list_all_iff)
      have mem: "id_t c \<in> set (?ids pre)"
        using entry_ids_subset [OF e] Mwt ccs by auto
      with pos_pre have "positive_id (id_t c)" unfolding list_all_iff by blast
      then obtain a where a: "id_t c = Num (Fin a)" "0 < a"
        by (cases "id_t c" rule: positive_id.cases) simp_all
      from mem fresh a have "a \<noteq> k" by auto
      then have "MultiwordToken_id m' \<noteq> Inr ?tid"
        using range_id_first [of a k] a kpos ccs
        by (auto simp: MultiwordToken_id_def simp del: ToString.simps ToString_num.simps)
      with Mwt ccs show ?thesis by simp
    qed
  qed
  have E: "expand s (Num (Fin k)) index = Inr ?s1"
    using expand_at [OF assms(1,2,3) skipE int_post] .
  have nth: "tokens ?s1 ! length pre = Mwt ?m" by simp
  have mid: "MultiwordToken_id ?m = Inr ?tid"
    by (simp add: MultiwordToken_id_def token_of_def)
  have int_shift: "list_all int_ids (map (shift_entry 1) post)"
    using int_post by (simp add: list_all_iff int_ids_shift)
  have C: "collapse ?s1 ?tid = Inr (s\<lparr>tokens := pre @ Tok (token_of k f) # post\<rparr>)"
    using collapse_group [of ?s1 pre ?m "map (shift_entry 1) post" ?tid
        "token_of k (slice_to f index)" "[token_of (k + 1) (slice_from f index)]" k, OF _ mid _ _ skipC int_shift]
      shift_back_entries [OF int_post]
    by (simp add: token_of_def)
  have same: "map entry_ids (pre @ Tok (token_of k f) # post) = map entry_ids (tokens s)"
    using assms(1,2) by (simp add: token_of_def)
  show ?thesis
    using E nth mid C same assms(1)
    by (intro exI [of _ ?s1] exI [of _ ?m] exI [of _ ?tid]
          exI [of _ "s\<lparr>tokens := pre @ Tok (token_of k f) # post\<rparr>"])
       (simp add: sentence_ids_def)
qed

text \<open>C6 on the tokens \<open>1 ab\<close>, \<open>2 c\<close>, split at offset 1.\<close>

theorem expand_then_collapse_restores_witness:
  "\<exists>s1 m token_id s2.
     expand ab_c (Num (Fin 1)) 1 = Inr s1 \<and>
     tokens s1 ! 0 = Mwt m \<and>
     MultiwordToken_id m = Inr token_id \<and>
     collapse s1 token_id = Inr s2 \<and>
     tokens s2 = [Tok (token_of 1 ''ab''), Tok (token_of 2 ''c'')] \<and>
     length (tokens s2) = length (tokens ab_c) \<and>
     map entry_ids (tokens s2) = map entry_ids (tokens ab_c) \<and>
     sentence_ids s2 = sentence_ids ab_c"
proof -
  have h1: "tokens ab_c = [] @ Tok (token_of 1 ''ab'') # [Tok (token_of 2 ''c'')]"
    by (simp add: ab_c_def)
  have h2: "id_t (token_of 1 ''ab'') = Num (Fin 1)" by (simp add: token_of_def)
  have h3: "form (token_of 1 ''ab'') = Str ''ab''" by (simp add: token_of_def)
  have h4: "list_all safe_id (sentence_ids ab_c)"
    by (simp add: sentence_ids_def ab_c_def token_of_def)
  have h5: "distinct (sentence_ids ab_c)" by code_simp
  have h6: "list_all has_children (tokens ab_c)" by code_simp
  from expand_then_collapse_restores [OF h1 h2 h3 h4 h5 h6, of 1] show ?thesis
    by simp
qed

section \<open>Lines, fields and comment lines\<close>

lemma split_on_prefix:
  "c \<notin> set l \<Longrightarrow> split_on c (l @ c # rest) = l # split_on c rest"
  by (induction l) (auto split: list.splits)

lemma split_on_none: "c \<notin> set l \<Longrightarrow> split_on c l = [l]"
  by (induction l) (auto split: list.splits)

lemma split_on_lines:
  "list_all (\<lambda>l. NL \<notin> set l) ls \<Longrightarrow>
   split_on NL (concat (map (\<lambda>l. l @ [NL]) ls)) = ls @ [[]]"
  by (induction ls) (simp_all add: split_on_prefix)

lemma join_with_Cons: "ls \<noteq> [] \<Longrightarrow> join_with c (l # ls) = l @ c # join_with c ls"
  by (cases ls) simp_all

lemma split_on_join:
  "flds \<noteq> [] \<Longrightarrow> list_all (\<lambda>f. c \<notin> set f) flds \<Longrightarrow> split_on c (join_with c flds) = flds"
proof (induction flds)
  case Nil
  then show ?case by simp
next
  case (Cons f flds)
  show ?case
  proof (cases "flds = []")
    case True
    with Cons.prems show ?thesis by (simp add: split_on_none)
  next
    case False
    with Cons show ?thesis by (simp add: join_with_Cons split_on_prefix)
  qed
qed

lemma join_with_lines: "join_with NL (ls @ [[]]) = concat (map (\<lambda>l. l @ [NL]) ls)"
proof (induction ls)
  case Nil
  then show ?case by simp
next
  case (Cons l ls)
  have "join_with NL (l # (ls @ [[]])) = l @ NL # join_with NL (ls @ [[]])"
    by (rule join_with_Cons) simp
  with Cons show ?case by simp
qed

lemma last_sep_none: "CHR ''='' \<notin> set (tl s) \<Longrightarrow> last_sep s = None"
proof (induction s)
  case Nil
  then show ?case by simp
next
  case (Cons c cs)
  then have "last_sep cs = None" by (cases cs) auto
  moreover from Cons.prems have "take 3 (c # cs) \<noteq> '' = ''"
    by (cases cs) auto
  ultimately show ?case by simp
qed

lemma last_sep_value:
  "CHR ''='' \<notin> set v \<Longrightarrow> last_sep (k @ '' = '' @ v) = Some (k, v)"
proof (induction k)
  case Nil
  have "last_sep (CHR ''='' # CHR '' '' # v) = None"
    using Nil by (intro last_sep_none) simp
  then show ?case by simp
next
  case (Cons c k)
  then show ?case by simp
qed

lemma metadataRegex_exec_hash:
  assumes "list_all (\<lambda>c. \<not> line_terminator c) seg" and "last_sep seg = Some kv"
  shows "metadataRegex_exec (CHR ''#'' # CHR '' '' # seg) = Some kv"
proof -
  have tw: "takeWhile (\<lambda>x. \<not> line_terminator x) seg = seg"
    using assms(1) by (simp add: list_all_iff)
  show ?thesis using assms(2) by (simp add: tw)
qed

lemma metadataRegex_exec_line:
  assumes "list_all (\<lambda>c. \<not> line_terminator c) (k @ v)"
    and "last_sep (k @ '' = '' @ v) = Some (k, v)"
  shows "metadataRegex_exec (metadata_line (k, v)) = Some (k, v)"
proof -
  have a: "list_all (\<lambda>c. \<not> line_terminator c) (k @ '' = '' @ v)"
    using assms(1) by (auto simp: list_all_iff line_terminator_def)
  have "metadata_line (k, v) = CHR ''#'' # CHR '' '' # (k @ '' = '' @ v)"
    by (simp add: metadata_line_def)
  then show ?thesis using metadataRegex_exec_hash [OF a assms(2)] by (simp only:)
qed

section \<open>Sentence: metadata and the entries of a parse\<close>

lemma obj_set_ordinary: "ordinary_key k \<Longrightarrow> obj_set md k v = put_ordered md (k, v)"
  by (auto simp: obj_set_def put_ordered_def ordinary_key_def)

lemma metadata_pass_recognized:
  "metadata_pass ls md = foldl (\<lambda>md kv. obj_set md (fst kv) (snd kv)) md (recognized ls)"
  by (induction ls arbitrary: md) (simp_all split: option.splits prod.splits)

lemma foldl_obj_set_ordinary:
  "list_all (\<lambda>kv. ordinary_key (fst kv)) kvs \<Longrightarrow>
   foldl (\<lambda>md kv. obj_set md (fst kv) (snd kv)) md kvs = foldl put_ordered md kvs"
  by (induction kvs arbitrary: md) (simp_all add: obj_set_ordinary)

lemma metadata_pass_encounter_order:
  "list_all (\<lambda>kv. ordinary_key (fst kv)) (recognized ls) \<Longrightarrow>
   metadata_pass ls [] = encounter_order (recognized ls)"
  by (simp add: metadata_pass_recognized foldl_obj_set_ordinary encounter_order_def)

lemma token_pass_tokens:
  "list_all is_Tok toks \<Longrightarrow> token_pass lines ls mwtSubIds toks = Inr r \<Longrightarrow> list_all is_Tok r"
proof (induction ls arbitrary: mwtSubIds toks)
  case Nil
  then show ?case by simp
next
  case (Cons l ls)
  have step: "list_all is_Tok r"
    if "token_pass lines ls ids' toks' = Inr r" and "list_all is_Tok toks'" for ids' toks'
    using Cons.IH [OF that(2) that(1)] .
  have toks_mwt: "list_all is_Tok (toks @ map Tok cs)" for cs
    using Cons.prems(1) by (auto simp: list_all_iff)
  have toks_tok: "list_all is_Tok (toks @ [Tok t])" for t
    using Cons.prems(1) by simp
  from Cons.prems(2) show ?case
    by (auto simp: Let_def split: if_splits sum.splits option.splits
          intro: step [OF _ toks_mwt] step [OF _ toks_tok] step [OF _ Cons.prems(1)])
qed

lemma all_Tok: "list_all is_Tok es \<Longrightarrow> \<exists>ts. es = map Tok ts"
proof (induction es)
  case Nil
  then show ?case by simp
next
  case (Cons e es)
  then obtain ts where "es = map Tok ts" by auto
  moreover from Cons.prems obtain t where "e = Tok t" by (cases e) simp_all
  ultimately have "e # es = map Tok (t # ts)" by simp
  then show ?case by (rule exI)
qed

lemma map_result_tokens: "map_result entry_serial (map Tok ts) = Inr (map Token_serial ts)"
  by (induction ts) simp_all

lemma Sentence_serial_tokens:
  "tokens s = map Tok ts \<Longrightarrow>
   Sentence_serial s = Inr (join_with NL (map metadata_line (metadata s) @ map Token_serial ts @ [[]]))"
  by (simp add: Sentence_serial_def map_result_tokens)

lemma Sentence_parse_parts:
  assumes "Sentence_parse T = Inr s"
  shows "metadata s = metadata_pass (split_on NL T) []" and "list_all is_Tok (tokens s)"
proof -
  from assms obtain toks where
    t: "token_pass (split_on NL T) (split_on NL T) [] [] = Inr toks"
    and s: "s = \<lparr>metadata = metadata_pass (split_on NL T) [], tokens = toks\<rparr>"
    by (auto simp: Sentence_parse_def Sentence_serial_set_def new_Sentence_def Let_def
          split: sum.splits)
  from s show "metadata s = metadata_pass (split_on NL T) []" by simp
  from token_pass_tokens [OF _ t] s show "list_all is_Tok (tokens s)" by simp
qed

text \<open>
  C9, amended: when no key of the recognised comment lines is an array index or
  \<open>__proto__\<close>, the metadata loop builds the insertion-ordered mapping of the recognised
  lines: keys in the order of their first line, each with the value of its last line.
  When the parse returns, this is the \<open>metadata\<close> of the sentence, every entry of
  \<open>tokens\<close> is a token, and the serialisation starts with the metadata lines in this
  order.
\<close>

theorem metadata_in_encounter_order:
  assumes "list_all (\<lambda>kv. ordinary_key (fst kv)) (recognized (split_on NL T))"
  shows "metadata_pass (split_on NL T) [] = encounter_order (recognized (split_on NL T)) \<and>
         (\<forall>s. Sentence_parse T = Inr s \<longrightarrow>
            metadata s = encounter_order (recognized (split_on NL T)) \<and>
            (\<exists>ts. tokens s = map Tok ts \<and>
               Sentence_serial s =
                 Inr (join_with NL
                        (map metadata_line (encounter_order (recognized (split_on NL T))) @
                         map Token_serial ts @ [[]]))))"
proof -
  have m: "metadata_pass (split_on NL T) [] = encounter_order (recognized (split_on NL T))"
    using metadata_pass_encounter_order [OF assms] .
  have "metadata s = encounter_order (recognized (split_on NL T)) \<and>
        (\<exists>ts. tokens s = map Tok ts \<and>
           Sentence_serial s =
             Inr (join_with NL
                    (map metadata_line (encounter_order (recognized (split_on NL T))) @
                     map Token_serial ts @ [[]])))"
    if p: "Sentence_parse T = Inr s" for s
  proof -
    from Sentence_parse_parts [OF p] m have ms: "metadata s = encounter_order (recognized (split_on NL T))"
      by simp
    from Sentence_parse_parts(2) [OF p] obtain ts where ts: "tokens s = map Tok ts"
      using all_Tok by blast
    from Sentence_serial_tokens [OF ts] ms ts show ?thesis by auto
  qed
  with m show ?thesis by blast
qed

text \<open>
  The amended C9 on a text whose comment lines have the keys \<open>sent_id\<close>, \<open>text\<close> and
  \<open>sent_id\<close> again: \<open>sent_id\<close> stays first and has the value of its second line.
\<close>

theorem metadata_in_encounter_order_witness:
  "list_all (\<lambda>kv. ordinary_key (fst kv)) (recognized (split_on NL comments_repeated)) \<and>
   encounter_order (recognized (split_on NL comments_repeated)) =
     [(''sent_id'', ''3''), (''text'', ''I'')] \<and>
   (\<exists>s. Sentence_parse comments_repeated = Inr s \<and>
      metadata s = [(''sent_id'', ''3''), (''text'', ''I'')] \<and>
      (\<exists>ts. tokens s = map Tok ts \<and>
         Sentence_serial s =
           Inr (join_with NL
                  (map metadata_line [(''sent_id'', ''3''), (''text'', ''I'')] @
                   map Token_serial ts @ [[]]))))"
proof -
  have h: "list_all (\<lambda>kv. ordinary_key (fst kv)) (recognized (split_on NL comments_repeated))"
    by code_simp
  have e: "encounter_order (recognized (split_on NL comments_repeated)) =
      [(''sent_id'', ''3''), (''text'', ''I'')]"
    by code_simp
  have "Sentence_parse comments_repeated =
      Inr \<lparr>metadata = [(''sent_id'', ''3''), (''text'', ''I'')],
           tokens = [Tok (token_of_row
             [''1'', ''I'', ''I'', ''PRON'', ''PRP'', ''_'', ''2'', ''nsubj'', ''_'', ''_''])]\<rparr>"
    by code_simp
  then have p: "\<exists>s. Sentence_parse comments_repeated = Inr s"
    by (rule exI)
  from metadata_in_encounter_order [OF h] h e p show ?thesis
    by (auto simp only:)
qed

text \<open>
  C9, as stated, fails: for the lines \<open># 2 = b\<close> and \<open># 1 = a\<close> the encounter order of
  the keys is \<open>2, 1\<close>, while the object lists the key \<open>1\<close> first, and the serialisation
  emits \<open># 1 = a\<close> before \<open># 2 = b\<close>.
\<close>

theorem index_keys_listed_in_numeric_order:
  "recognized (split_on NL comments_2_1) = [(''2'', ''b''), (''1'', ''a'')] \<and>
   encounter_order (recognized (split_on NL comments_2_1)) = [(''2'', ''b''), (''1'', ''a'')] \<and>
   Sentence_parse comments_2_1 = Inr \<lparr>metadata = [(''1'', ''a''), (''2'', ''b'')], tokens = []\<rparr> \<and>
   Sentence_serial \<lparr>metadata = [(''1'', ''a''), (''2'', ''b'')], tokens = []\<rparr> =
     Inr (sentence_text [(''1'', ''a''), (''2'', ''b'')] [])"
  by code_simp

text \<open>
  C2 fails on the code. On the scenario's block the setter parses the group and then
  appends the group's children, not the group: \<open>tokens\<close> holds the two tokens 2 and 3,
  no entry is a \<open>MultiwordToken\<close>, and the form \<open>haven't\<close> is kept nowhere. By
  \<open>Sentence_parse_parts\<close> no parse ever yields a group.
\<close>

theorem Sentence_parse_range_line_flattened:
  "Sentence_parse scenario_havent =
     Inr \<lparr>metadata = [],
          tokens =
            [Tok \<lparr>id_t = Num (Fin 2), form = Str ''have'', lemma_t = Str ''have'',
                  upostag = Str ''VERB'', xpostag = Str ''VBP'', feats = Str ''_'',
                  head = Str ''0'', deprel = Str ''root'', deps = Str ''_'', misc = Str ''_''\<rparr>,
             Tok \<lparr>id_t = Num (Fin 3), form = Str ''not'', lemma_t = Str ''not'',
                  upostag = Str ''PART'', xpostag = Str ''RB'', feats = Str ''_'',
                  head = Str ''2'', deprel = Str ''neg'', deps = Str ''_'', misc = Str ''_''\<rparr>]\<rparr>"
  by code_simp

section \<open>Sentence: parsing and serialising a text\<close>

lemma char_of_48: "char_of (48::int) = CHR ''0''"
  by code_simp

lemma digit_val_zero: "is_digit c \<Longrightarrow> digit_val c = 0 \<Longrightarrow> c = CHR ''0''"
  using digit_char_digit_val [of c] by (simp add: digit_char_def char_of_48)

lemma canonical_numeral:
  "s \<noteq> [] \<Longrightarrow> list_all is_digit s \<Longrightarrow> hd s \<noteq> CHR ''0'' \<Longrightarrow>
   0 < int_of_digits s \<and> dec_digits (int_of_digits s) = s"
proof (induction s rule: rev_induct)
  case Nil
  then show ?case by simp
next
  case (snoc c s)
  from snoc.prems have dc: "is_digit c" by simp
  note r = digit_val_range [OF dc]
  show ?case
  proof (cases "s = []")
    case True
    with snoc.prems dc have "digit_val c \<noteq> 0" using digit_val_zero by auto
    with r have pos: "0 < digit_val c" by simp
    have "dec_digits (digit_val c) = [digit_char (digit_val c)]"
      using r by (subst dec_digits.simps) simp
    with True pos dc show ?thesis
      by (simp add: int_of_digits_def digit_char_digit_val)
  next
    case False
    with snoc have IH: "0 < int_of_digits s" "dec_digits (int_of_digits s) = s" by simp_all
    let ?n = "10 * int_of_digits s + digit_val c"
    have big: "\<not> ?n < 10" using IH(1) r by simp
    have d: "?n div 10 = int_of_digits s" using r by simp
    have m: "?n mod 10 = digit_val c" using r by simp
    have "dec_digits ?n = dec_digits (?n div 10) @ [digit_char (?n mod 10)]"
      using big by (subst dec_digits.simps) simp
    then have "dec_digits ?n = s @ [c]"
      by (simp only: d m IH(2) digit_char_digit_val [OF dc])
    moreover have "0 < ?n" using big by simp
    ultimately show ?thesis by (simp add: int_of_digits_snoc)
  qed
qed

lemma Number_str_canonical:
  "canonical_id s \<Longrightarrow> Number_str s = Some (Fin (int_of_digits s)) \<and> 0 < int_of_digits s \<and>
     ToString (Num (Fin (int_of_digits s))) = s"
  using canonical_numeral [of s] by (simp add: canonical_id_def Number_str_def)

lemma ten_fields:
  assumes "length flds = 10"
  obtains f0 f1 f2 f3 f4 f5 f6 f7 f8 f9 where "flds = [f0, f1, f2, f3, f4, f5, f6, f7, f8, f9]"
proof -
  from assms have "\<exists>f0 f1 f2 f3 f4 f5 f6 f7 f8 f9. flds = [f0, f1, f2, f3, f4, f5, f6, f7, f8, f9]"
    by (simp add: numeral_eq_Suc length_Suc_conv) blast
  then show ?thesis using that by blast
qed

lemma wf_row_split:
  "wf_row flds \<Longrightarrow> split_on TAB (join_with TAB flds) = flds"
proof -
  assume w: "wf_row flds"
  then have "flds \<noteq> []" by (auto simp: wf_row_def)
  moreover from w have "list_all (\<lambda>f. TAB \<notin> set f) flds"
    by (auto simp: wf_row_def wf_field_def list_all_iff)
  ultimately show ?thesis by (rule split_on_join)
qed

lemma Token_parse_row:
  assumes "wf_row flds"
  shows "Token_parse (join_with TAB flds) = Inr (token_of_row flds)"
proof -
  from assms have "length flds = 10" by (simp add: wf_row_def)
  then obtain f0 f1 f2 f3 f4 f5 f6 f7 f8 f9
    where f: "flds = [f0, f1, f2, f3, f4, f5, f6, f7, f8, f9]"
    by (rule ten_fields)
  from assms f have c: "canonical_id f0" by (simp add: wf_row_def)
  note n = Number_str_canonical [OF c]
  have "Token_serial_set new_Token (join_with TAB flds) = Inr (token_of_row flds)"
    unfolding Token_serial_set_eq wf_row_split [OF assms]
    using n by (simp add: f field_def token_of_row_def new_Token_def)
  then show ?thesis by (simp add: Token_parse_def)
qed

lemma Token_serial_row:
  assumes "wf_row flds"
  shows "Token_serial (token_of_row flds) = join_with TAB flds"
proof -
  from assms have "length flds = 10" by (simp add: wf_row_def)
  then obtain f0 f1 f2 f3 f4 f5 f6 f7 f8 f9
    where f: "flds = [f0, f1, f2, f3, f4, f5, f6, f7, f8, f9]"
    by (rule ten_fields)
  from assms f have c: "canonical_id f0" by (simp add: wf_row_def)
  note n = Number_str_canonical [OF c]
  from assms f have ne: "f1 \<noteq> []" "f2 \<noteq> []" "f3 \<noteq> []" "f4 \<noteq> []" "f5 \<noteq> []"
    "f6 \<noteq> []" "f7 \<noteq> []" "f8 \<noteq> []" "f9 \<noteq> []"
    by (simp_all add: wf_row_def wf_field_def)
  have id_out: "field_output (Num (Fin (int_of_digits f0))) = f0"
    using n by (simp add: field_output_def is_set_def del: ToString.simps)
  have form_out: "is_set (Num (Fin (int_of_digits f0)))" by (simp add: is_set_def)
  have out: "field_output (Str x) = x" if "x \<noteq> []" for x
    using that by (simp add: field_output_def is_set_def)
  show ?thesis
    unfolding Token_serial_def Let_def
    by (simp add: f token_of_row_def id_out form_out out ne del: ToString.simps)
       (simp add: ToString.simps(2))
qed

lemma join_with_hd: "join_with c ((d # ds) # rest) = d # join_with c (ds # rest)"
  by (cases rest) simp_all

lemma set_join_with: "x \<in> set (join_with c flds) \<Longrightarrow> x = c \<or> (\<exists>f\<in>set flds. x \<in> set f)"
  by (induction c flds rule: join_with.induct) auto

lemma row_line:
  assumes "wf_row flds"
  shows "\<not> startsWith (join_with TAB flds) ''#''" and "join_with TAB flds \<noteq> []"
    and "NL \<notin> set (join_with TAB flds)"
proof -
  from assms have len: "length flds = 10" and c: "canonical_id (hd flds)"
    and fs: "list_all wf_field flds"
    by (simp_all add: wf_row_def)
  from len obtain f0 rest where f: "flds = f0 # rest" by (cases flds) simp_all
  with c obtain d ds where d: "f0 = d # ds" "is_digit d"
    by (cases f0) (auto simp: canonical_id_def)
  then have "d \<noteq> CHR ''#''" by (auto simp: is_digit_def)
  with d f show "\<not> startsWith (join_with TAB flds) ''#''"
    by (simp add: startsWith_def join_with_hd)
  from d f show "join_with TAB flds \<noteq> []" by (simp add: join_with_hd)
  show "NL \<notin> set (join_with TAB flds)"
  proof
    assume "NL \<in> set (join_with TAB flds)"
    from set_join_with [OF this] obtain f' where "f' \<in> set flds" "NL \<in> set f'" by auto
    with fs show False by (auto simp: list_all_iff wf_field_def)
  qed
qed

lemma token_pass_row:
  assumes "wf_row flds"
  shows "token_pass lines (join_with TAB flds # rest) [] toks =
           token_pass lines rest [] (toks @ [Tok (token_of_row flds)])"
proof -
  from assms have c: "canonical_id (hd flds)" by (simp add: wf_row_def)
  then have nodash: "CHR ''-'' \<notin> set (hd flds)"
    using not_digit_dash by (auto simp: canonical_id_def list_all_iff)
  note n = Number_str_canonical [OF c]
  show ?thesis
    using row_line(1,2) [OF assms] nodash n Token_parse_row [OF assms]
    by (simp add: wf_row_split [OF assms] not_in_mwtSubIds_def del: ToString.simps)
qed

lemma token_pass_rows:
  "list_all wf_row rows \<Longrightarrow>
   token_pass lines (map (join_with TAB) rows @ rest) [] toks =
     token_pass lines rest [] (toks @ map (\<lambda>r. Tok (token_of_row r)) rows)"
proof (induction rows arbitrary: toks)
  case Nil
  then show ?case by simp
next
  case (Cons r rows)
  from Cons.prems have r: "wf_row r" and rs: "list_all wf_row rows" by simp_all
  show ?case
    using token_pass_row [OF r, of lines "map (join_with TAB) rows @ rest" toks]
      Cons.IH [OF rs, of "toks @ [Tok (token_of_row r)]"]
    by (simp del: token_pass.simps)
qed

lemma comment_line: "startsWith (metadata_line kv) ''#''"
  by (simp add: startsWith_def metadata_line_def)

lemma token_pass_comments:
  "token_pass lines (map metadata_line kvs @ rest) ids toks = token_pass lines rest ids toks"
  by (induction kvs) (simp_all add: comment_line)

lemma token_pass_text_lines:
  assumes "list_all wf_row rows"
  shows "token_pass lines (map metadata_line kvs @ map (join_with TAB) rows @ [[]]) [] [] =
           Inr (map (\<lambda>r. Tok (token_of_row r)) rows)"
  by (simp add: token_pass_comments token_pass_rows [OF assms] startsWith_def)

lemma metadata_pass_rows:
  "list_all wf_row rows \<Longrightarrow> metadata_pass (map (join_with TAB) rows @ [[]]) md = md"
proof (induction rows)
  case Nil
  then show ?case by (simp add: startsWith_def)
next
  case (Cons r rows)
  from Cons.prems have r: "wf_row r" and rs: "list_all wf_row rows" by simp_all
  note ns = row_line(1) [OF r]
  show ?case using Cons.IH [OF rs] by (simp add: ns)
qed

lemma obj_set_new:
  "ordinary_key k \<Longrightarrow> k \<notin> set (map fst md) \<Longrightarrow> obj_set md k v = md @ [(k, v)]"
  by (simp add: obj_set_def ordinary_key_def)

lemma metadata_pass_comments:
  "list_all wf_comment kvs \<Longrightarrow> distinct (map fst md @ map fst kvs) \<Longrightarrow>
   metadata_pass (map metadata_line kvs @ rest) md = metadata_pass rest (md @ kvs)"
proof (induction kvs arbitrary: md)
  case Nil
  then show ?case by simp
next
  case (Cons kv kvs)
  obtain k v where kv: "kv = (k, v)" by (cases kv)
  from Cons.prems(1) kv have w: "list_all (\<lambda>c. \<not> line_terminator c) (k @ v)"
      "last_sep (k @ '' = '' @ v) = Some (k, v)" "ordinary_key k"
    by (simp_all add: wf_comment_def)
  from Cons.prems(2) kv have new: "k \<notin> set (map fst md)" by auto
  have step: "metadata_pass (metadata_line kv # map metadata_line kvs @ rest) md =
      metadata_pass (map metadata_line kvs @ rest) (md @ [kv])"
    using metadataRegex_exec_line [OF w(1,2)] obj_set_new [OF w(3) new] comment_line [of kv]
    by (simp add: kv)
  from Cons.prems have "list_all wf_comment kvs" "distinct (map fst (md @ [kv]) @ map fst kvs)"
    by auto
  from Cons.IH [OF this] step show ?case by simp
qed

lemma comment_no_NL: "wf_comment kv \<Longrightarrow> NL \<notin> set (metadata_line kv)"
  by (auto simp: wf_comment_def metadata_line_def list_all_iff line_terminator_def)

lemma text_lines:
  assumes "list_all wf_comment kvs" and "list_all wf_row rows"
  shows "split_on NL (sentence_text kvs rows) =
           map metadata_line kvs @ map (join_with TAB) rows @ [[]]"
proof -
  have "list_all (\<lambda>l. NL \<notin> set l) (map metadata_line kvs @ map (join_with TAB) rows)"
    using assms comment_no_NL row_line(3) by (auto simp: list_all_iff)
  from split_on_lines [OF this] show ?thesis by (simp add: sentence_text_def)
qed

text \<open>
  C1, amended: let a text consist of comment lines \<open># key = value\<close> followed by token
  lines, every line ended by a line feed. In a comment line the key is what stands
  before the last \<open>" = "\<close> of the line and the value what stands after it; the keys are
  ordinary (no array index, not \<open>__proto__\<close>) and differ from each other, and keys and
  values hold no line terminator. Every token line has 10 non-empty fields (an unset
  field being written \<open>_\<close>), the first of which is a decimal numeral of at most 15
  digits without a leading zero. Then parsing the text returns the sentence of these
  comments and tokens, and serialising this sentence returns exactly the text. (Range
  lines are left out of the statement.)
\<close>

theorem parse_then_serialize_text:
  assumes "wf_comments kvs" and "list_all wf_row rows"
  shows "Sentence_parse (sentence_text kvs rows) =
           Inr \<lparr>metadata = kvs, tokens = map (\<lambda>r. Tok (token_of_row r)) rows\<rparr> \<and>
         Sentence_serial \<lparr>metadata = kvs, tokens = map (\<lambda>r. Tok (token_of_row r)) rows\<rparr> =
           Inr (sentence_text kvs rows)"
proof -
  from assms(1) have wc: "list_all wf_comment kvs" and dk: "distinct (map fst kvs)"
    by (simp_all add: wf_comments_def)
  note ls = text_lines [OF wc assms(2)]
  have md: "metadata_pass (split_on NL (sentence_text kvs rows)) [] = kvs"
    using metadata_pass_comments [OF wc, of "[]" "map (join_with TAB) rows @ [[]]"] dk
      metadata_pass_rows [OF assms(2)]
    by (simp add: ls)
  have tp: "token_pass (split_on NL (sentence_text kvs rows))
        (split_on NL (sentence_text kvs rows)) [] [] =
      Inr (map (\<lambda>r. Tok (token_of_row r)) rows)"
    unfolding ls by (rule token_pass_text_lines [OF assms(2)])
  have parse: "Sentence_parse (sentence_text kvs rows) =
      Inr \<lparr>metadata = kvs, tokens = map (\<lambda>r. Tok (token_of_row r)) rows\<rparr>"
    by (simp add: Sentence_parse_def Sentence_serial_set_def new_Sentence_def Let_def md tp)
  have "map_result entry_serial (map (\<lambda>r. Tok (token_of_row r)) rows) =
      Inr (map (join_with TAB) rows)"
    using assms(2) by (induction rows) (simp_all add: Token_serial_row)
  then have "Sentence_serial \<lparr>metadata = kvs, tokens = map (\<lambda>r. Tok (token_of_row r)) rows\<rparr> =
      Inr (join_with NL ((map metadata_line kvs @ map (join_with TAB) rows) @ [[]]))"
    by (simp add: Sentence_serial_def)
  then have "Sentence_serial \<lparr>metadata = kvs, tokens = map (\<lambda>r. Tok (token_of_row r)) rows\<rparr> =
      Inr (sentence_text kvs rows)"
    by (simp only: join_with_lines sentence_text_def)
  with parse show ?thesis by simp
qed

text \<open>
  The amended C1 on the first two token lines of the example in the source's
  documentation, under the comment lines \<open># sent_id = 2\<close> and \<open># note = 1+1=2\<close>.
\<close>

theorem parse_then_serialize_text_witness:
  "wf_comments [(''sent_id'', ''2''), (''note'', ''1+1=2'')] \<and>
   list_all wf_row
     [[''1'', ''I'', ''I'', ''PRON'', ''PRP'', ''Case=Nom|Number=Sing|Person=1'', ''2'',
       ''nsubj'', ''_'', ''_''],
      [''2'', ''have'', ''have'', ''VERB'', ''VBP'', ''Number=Sing|Person=1|Tense=Pres'', ''0'',
       ''root'', ''_'', ''_'']] \<and>
   (\<exists>s. Sentence_parse sent_2 = Inr s \<and> Sentence_serial s = Inr sent_2)"
proof -
  have h1: "wf_comments [(''sent_id'', ''2''), (''note'', ''1+1=2'')]" by code_simp
  have h2: "list_all wf_row
     [[''1'', ''I'', ''I'', ''PRON'', ''PRP'', ''Case=Nom|Number=Sing|Person=1'', ''2'',
       ''nsubj'', ''_'', ''_''],
      [''2'', ''have'', ''have'', ''VERB'', ''VBP'', ''Number=Sing|Person=1|Tense=Pres'', ''0'',
       ''root'', ''_'', ''_'']]"
    by code_simp
  from parse_then_serialize_text [OF h1 h2] h1 h2 show ?thesis
    unfolding sent_2_def by blast
qed

text \<open>
  C1, as stated, fails: a well-formed text with the comment lines \<open># a = 1\<close> and
  \<open># a = 2\<close> and one token line is parsed to a sentence whose \<open>metadata\<close> holds the key
  \<open>a\<close> once, with the value \<open>2\<close>; its serialisation has the single comment line
  \<open># a = 2\<close> and is not the text.
\<close>

theorem repeated_key_not_restored:
  "Sentence_parse same_key_twice =
     Inr \<lparr>metadata = [(''a'', ''2'')],
          tokens = [Tok (token_of_row
                      [''1'', ''x'', ''_'', ''_'', ''_'', ''_'', ''_'', ''_'', ''_'', ''_''])]\<rparr> \<and>
   Sentence_serial
     \<lparr>metadata = [(''a'', ''2'')],
      tokens = [Tok (token_of_row
                  [''1'', ''x'', ''_'', ''_'', ''_'', ''_'', ''_'', ''_'', ''_'', ''_''])]\<rparr> =
     Inr same_key_once \<and>
   same_key_once \<noteq> same_key_twice"
  by code_simp

end
